theory Spec2Isabelle
  imports Main "HOL-Library.Sublist"
begin

section \<open>Strings\<close>

text \<open>
  A JavaScript string is a sequence of UTF-16 code units. The model covers the code units
  below 256 (the Latin-1 range) as \<^typ>\<open>char\<close>; \<open>trim\<close>, \<open>toLowerCase\<close>, \<open>\s\<close> and the
  case folding of the \<open>i\<close> flag are written out for that range.
\<close>

definition isWhiteSpace :: "char \<Rightarrow> bool" where
  \<comment> \<open>WhiteSpace and LineTerminator of ECMAScript: TAB, LF, VT, FF, CR, SP, NBSP\<close>
  "isWhiteSpace c = (of_char c \<in> {9, 10, 11, 12, 13, 32, 160 :: nat})"

definition isLineTerminator :: "char \<Rightarrow> bool" where
  "isLineTerminator c = (of_char c \<in> {10, 13 :: nat})"

definition toLowerCaseChar :: "char \<Rightarrow> char" where
  \<comment> \<open>A-Z and the Latin-1 capitals (all of 0xC0-0xDE but the multiplication sign) move up by 32\<close>
  "toLowerCaseChar c = (let n = of_char c :: nat in
     if (65 \<le> n \<and> n \<le> 90) \<or> (192 \<le> n \<and> n \<le> 222 \<and> n \<noteq> 215)
     then char_of (n + 32) else c)"

definition toLowerCase :: "string \<Rightarrow> string" where
  "toLowerCase s = map toLowerCaseChar s"

definition canonicalize :: "char \<Rightarrow> char" where
  \<comment> \<open>Canonicalize of the \<open>i\<close> flag (upper-casing of one code unit): a-z and the Latin-1
      small letters move down by 32. The sharp s, the micro sign and y with diaeresis have
      no upper case in the range; they stay, and equal no pattern character used below.\<close>
  "canonicalize c = (let n = of_char c :: nat in
     if (97 \<le> n \<and> n \<le> 122) \<or> (224 \<le> n \<and> n \<le> 254 \<and> n \<noteq> 247)
     then char_of (n - 32) else c)"

definition toUpperCase :: "string \<Rightarrow> string" where
  \<comment> \<open>the source calls it only on a text matched by \<open>[A-D]\<close> under the \<open>i\<close> flag\<close>
  "toUpperCase s = map canonicalize s"

definition trim :: "string \<Rightarrow> string" where
  "trim s = rev (dropWhile isWhiteSpace (rev (dropWhile isWhiteSpace s)))"

fun startsWith :: "string \<Rightarrow> string \<Rightarrow> bool" where
  "startsWith s [] = True"
| "startsWith [] (c # cs) = False"
| "startsWith (x # xs) (c # cs) = (x = c \<and> startsWith xs cs)"

fun includes_str :: "string \<Rightarrow> string \<Rightarrow> bool" where
  "includes_str [] t = (t = [])"
| "includes_str (x # xs) t = (startsWith (x # xs) t \<or> includes_str xs t)"

definition truthy :: "string option \<Rightarrow> bool" where
  \<comment> \<open>a value that is a string or \<open>undefined\<close>: falsy when \<open>undefined\<close> or empty\<close>
  "truthy v = (case v of None \<Rightarrow> False | Some s \<Rightarrow> s \<noteq> [])"

definition orElse :: "string option \<Rightarrow> string option \<Rightarrow> string option" where
  \<comment> \<open>\<open>a || b\<close>\<close>
  "orElse a b = (if truthy a then a else b)"

definition orString :: "string option \<Rightarrow> string \<Rightarrow> string" where
  \<comment> \<open>\<open>a || b\<close> where \<open>b\<close> is a string\<close>
  "orString a b = (case a of None \<Rightarrow> b | Some s \<Rightarrow> if s = [] then b else s)"

fun showNat :: "nat \<Rightarrow> string" where
  \<comment> \<open>\<open>String(n)\<close> of a natural number\<close>
  "showNat n = (if n < 10 then [char_of (48 + n)]
                else showNat (n div 10) @ [char_of (48 + n mod 10)])"

definition isDigit :: "char \<Rightarrow> bool" where
  "isDigit c = (48 \<le> (of_char c :: nat) \<and> (of_char c :: nat) \<le> 57)"

definition digitsValue :: "string \<Rightarrow> int" where
  \<comment> \<open>the number a text of decimal digits stands for\<close>
  "digitsValue s = foldl (\<lambda>n c. 10 * n + (int (of_char c) - 48)) 0 s"

definition nthOpt :: "'a list \<Rightarrow> int \<Rightarrow> 'a option" where
  \<comment> \<open>\<open>xs[i]\<close>: \<open>undefined\<close> outside the array\<close>
  "nthOpt xs i = (if 0 \<le> i \<and> i < int (length xs) then Some (xs ! nat i) else None)"

fun indexOf :: "'a list \<Rightarrow> 'a \<Rightarrow> int" where
  \<comment> \<open>\<open>xs.indexOf(x)\<close>: the first index, \<open>-1\<close> when absent\<close>
  "indexOf [] x = -1"
| "indexOf (y # ys) x = (if y = x then 0 else (let i = indexOf ys x in if i < 0 then -1 else i + 1))"

definition lastIndexOf :: "'a list \<Rightarrow> 'a \<Rightarrow> int" where
  "lastIndexOf xs x = (let i = indexOf (rev xs) x in if i < 0 then -1 else int (length xs) - 1 - i)"

definition substring :: "string \<Rightarrow> int \<Rightarrow> int \<Rightarrow> string" where
  \<comment> \<open>\<open>s.substring(a, b)\<close> for \<open>0 \<le> a \<le> b\<close>\<close>
  "substring s a b = take (nat b - nat a) (drop (nat a) s)"

section \<open>Regular expressions\<close>

text \<open>
  The fragment of ECMAScript regular expressions the source uses, with a backtracking
  matcher: a match state is the character before the position (for \<open>^\<close>), the rest of the
  input, and capture group 1; the matcher returns the states after a match in the order
  backtracking tries them (greedy first), so the head of the list is the match taken.
  The flag \<open>m\<close> is the first argument; the flag \<open>i\<close> is in the character classes.
\<close>

datatype re =
    Eps
  | Sym "char \<Rightarrow> bool"
  | Seq re re
  | Alt re re
  | Opt re
  | Many "char \<Rightarrow> bool"
  | Bol
  | Eol
  | Grp re

type_synonym mstate = "char option \<times> string \<times> string option"

fun many :: "(char \<Rightarrow> bool) \<Rightarrow> mstate \<Rightarrow> mstate list" where
  "many p (b, [], cap) = [(b, [], cap)]"
| "many p (b, x # xs, cap) =
     (if p x then many p (Some x, xs, cap) @ [(b, x # xs, cap)] else [(b, x # xs, cap)])"

fun rmatch :: "bool \<Rightarrow> re \<Rightarrow> mstate \<Rightarrow> mstate list" where
  "rmatch m Eps st = [st]"
| "rmatch m (Sym p) (b, s, cap) =
     (case s of [] \<Rightarrow> [] | x # xs \<Rightarrow> if p x then [(Some x, xs, cap)] else [])"
| "rmatch m (Seq r1 r2) st = concat (map (rmatch m r2) (rmatch m r1 st))"
| "rmatch m (Alt r1 r2) st = rmatch m r1 st @ rmatch m r2 st"
| "rmatch m (Opt r) st = rmatch m r st @ [st]"
| "rmatch m (Many p) st = many p st"
| "rmatch m Bol (b, s, cap) =
     (case b of None \<Rightarrow> [(b, s, cap)]
      | Some c \<Rightarrow> if m \<and> isLineTerminator c then [(b, s, cap)] else [])"
| "rmatch m Eol (b, s, cap) =
     (case s of [] \<Rightarrow> [(b, s, cap)]
      | x # xs \<Rightarrow> if m \<and> isLineTerminator x then [(b, s, cap)] else [])"
| "rmatch m (Grp r) (b, s, cap) =
     map (\<lambda>(b', s', c'). (b', s', Some (take (length s - length s') s))) (rmatch m r (b, s, cap))"

fun rsearch :: "bool \<Rightarrow> re \<Rightarrow> string \<Rightarrow> char option \<Rightarrow> string \<Rightarrow> (string \<times> mstate) option" where
  \<comment> \<open>the leftmost match: the text before it and the state after it\<close>
  "rsearch m r pre b [] =
     (case rmatch m r (b, [], None) of st # _ \<Rightarrow> Some (rev pre, st) | [] \<Rightarrow> None)"
| "rsearch m r pre b (x # xs) =
     (case rmatch m r (b, x # xs, None) of st # _ \<Rightarrow> Some (rev pre, st)
      | [] \<Rightarrow> rsearch m r (x # pre) (Some x) xs)"

definition test :: "bool \<Rightarrow> re \<Rightarrow> string \<Rightarrow> bool" where
  \<comment> \<open>\<open>re.test(s)\<close>\<close>
  "test m r s = (rsearch m r [] None s \<noteq> None)"

definition match1 :: "bool \<Rightarrow> re \<Rightarrow> string \<Rightarrow> string option" where
  \<comment> \<open>\<open>s.match(re)\<close> read at index 1: \<open>None\<close> when there is no match, else the text of
      group 1 (the group of the expressions below takes part in every match)\<close>
  "match1 m r s = (case rsearch m r [] None s of None \<Rightarrow> None | Some (pre, (b, rest, cap)) \<Rightarrow> cap)"

definition replaceFirst :: "bool \<Rightarrow> re \<Rightarrow> string \<Rightarrow> string" where
  \<comment> \<open>\<open>s.replace(re, '')\<close> without the flag \<open>g\<close>\<close>
  "replaceFirst m r s =
     (case rsearch m r [] None s of None \<Rightarrow> s | Some (pre, (b, rest, cap)) \<Rightarrow> pre @ rest)"

definition group1 :: "string option \<Rightarrow> string" where
  "group1 cap = (case cap of None \<Rightarrow> [] | Some g \<Rightarrow> g)"

function replaceAllGroup1 :: "bool \<Rightarrow> re \<Rightarrow> char option \<Rightarrow> string \<Rightarrow> string" where
  \<comment> \<open>\<open>s.replace(re, '$1')\<close> with the flag \<open>g\<close>: after a match the search goes on behind it,
      after an empty match one character further\<close>
  "replaceAllGroup1 m r b s =
     (case rmatch m r (b, s, None) of
        (b', s', cap) # _ \<Rightarrow>
          (if length s' < length s then group1 cap @ replaceAllGroup1 m r b' s'
           else group1 cap @
                (case s of [] \<Rightarrow> [] | x # xs \<Rightarrow> x # replaceAllGroup1 m r (Some x) xs))
      | [] \<Rightarrow> (case s of [] \<Rightarrow> [] | x # xs \<Rightarrow> x # replaceAllGroup1 m r (Some x) xs))"
  by pat_completeness auto
termination
  by (relation "measure (\<lambda>(m, r, b, s). length s)") auto

declare replaceAllGroup1.simps [simp del]

definition seqs :: "re list \<Rightarrow> re" where
  "seqs rs = foldr Seq rs Eps"

definition cls :: "string \<Rightarrow> re" where
  \<comment> \<open>a character class, or one literal character\<close>
  "cls cs = Sym (\<lambda>c. c \<in> set cs)"

definition clsI :: "string \<Rightarrow> re" where
  \<comment> \<open>a character class under the flag \<open>i\<close>\<close>
  "clsI cs = Sym (\<lambda>c. canonicalize c \<in> set (map canonicalize cs))"

definition lit :: "string \<Rightarrow> re list" where
  "lit w = map (\<lambda>c. cls [c]) w"

definition litI :: "string \<Rightarrow> re list" where
  "litI w = map (\<lambda>c. clsI [c]) w"

definition ws :: re where
  \<comment> \<open>\<open>\s\<close>\<close>
  "ws = Sym isWhiteSpace"

section \<open>Data model\<close>

text \<open>
  \<open>Question\<close> and \<open>Topic\<close> of the client store. A field the source reads with a default
  (\<open>q.no || ''\<close>) may be missing on an object and is an option here; \<open>id\<close> is \<open>qid\<close> and
  \<open>tid\<close>.
\<close>

record Question =
  qid :: string
  no :: "string option"
  question :: string
  options :: "string list"
  correctAnswer :: string
  explanation :: "string option"
  topic :: string
  pageNo :: "string option"

record Topic =
  tid :: string
  name :: string
  questions :: "Question list"

section \<open>Answer check\<close>

text \<open>
  The practice page (its statistics loop) and the question card each carry a copy of the
  check. Both start from the trimmed \<open>correctAnswer\<close> and use the same five expressions.
\<close>

definition re_OptionLetter_test :: re where
  \<comment> \<open>\<open>/^Option\s?[A-D]$/i\<close>\<close>
  "re_OptionLetter_test = seqs ([Bol] @ litI ''Option'' @ [Opt ws, clsI ''ABCD'', Eol])"

definition re_OptionDigit_test :: re where
  \<comment> \<open>\<open>/^Option\s?[1-4]$/i\<close>\<close>
  "re_OptionDigit_test = seqs ([Bol] @ litI ''Option'' @ [Opt ws, clsI ''1234'', Eol])"

definition re_OptionLetter :: re where
  \<comment> \<open>\<open>/Option\s?([A-D])/i\<close>\<close>
  "re_OptionLetter = seqs (litI ''Option'' @ [Opt ws, Grp (clsI ''ABCD'')])"

definition re_OptionDigit :: re where
  \<comment> \<open>\<open>/Option\s?(\d)/i\<close>\<close>
  "re_OptionDigit = seqs (litI ''Option'' @ [Opt ws, Grp (clsI ''0123456789'')])"

definition re_Letter_test :: re where
  \<comment> \<open>\<open>/^[A-D]$/i\<close>\<close>
  "re_Letter_test = seqs [Bol, clsI ''ABCD'', Eol]"

definition charCodeAt0 :: "string \<Rightarrow> int option" where
  \<comment> \<open>\<open>s.charCodeAt(0)\<close>; \<open>None\<close> is NaN\<close>
  "charCodeAt0 s = (case s of [] \<Rightarrow> None | c # _ \<Rightarrow> Some (int (of_char c)))"

definition parseInt :: "string \<Rightarrow> int option" where
  \<comment> \<open>\<open>parseInt(s)\<close> of a text without sign, blank or radix prefix (the argument is one
      character matched by \<open>\d\<close>): the value of the leading digits; \<open>None\<close> is NaN\<close>
  "parseInt s = (let ds = takeWhile isDigit s in
                 if ds = [] then None else Some (digitsValue ds))"

definition isLabeledOption :: "string \<Rightarrow> bool" where
  "isLabeledOption correctText =
     (test False re_OptionLetter_test correctText \<or> test False re_OptionDigit_test correctText)"

definition labeledIndex :: "string \<Rightarrow> int option" where
  \<comment> \<open>the index of case 1, starting at \<open>-1\<close>; \<open>None\<close> is NaN\<close>
  "labeledIndex correctText =
     (let index = Some (- 1);
          matchLetter = match1 False re_OptionLetter correctText;
          matchNumber = match1 False re_OptionDigit correctText
      in case matchLetter of
           Some g \<Rightarrow> map_option (\<lambda>c. c - 65) (charCodeAt0 (toUpperCase g))
         | None \<Rightarrow> (case matchNumber of
                      Some d \<Rightarrow> map_option (\<lambda>n. n - 1) (parseInt d)
                    | None \<Rightarrow> index))"

definition letterIndex :: "string \<Rightarrow> int option" where
  \<comment> \<open>\<open>correctText.toUpperCase().charCodeAt(0) - 65\<close>\<close>
  "letterIndex correctText = map_option (\<lambda>c. c - 65) (charCodeAt0 (toUpperCase correctText))"

definition practiceIsCorrect :: "Question \<Rightarrow> string \<Rightarrow> bool" where
  \<comment> \<open>the local \<open>isCorrect\<close> of the statistics loop, for a question and its answer\<close>
  "practiceIsCorrect q ans =
     (let correctText = trim (correctAnswer q) in
      if isLabeledOption correctText then
        (case labeledIndex correctText of
           Some index \<Rightarrow> index \<ge> 0 \<and> nthOpt (options q) index = Some ans
         | None \<Rightarrow> False)
      else if test False re_Letter_test correctText then
        (case letterIndex correctText of
           Some correctIndex \<Rightarrow> nthOpt (options q) correctIndex = Some ans
         | None \<Rightarrow> False)
      else toLowerCase (trim ans) = toLowerCase correctText)"

datatype verdict = Correct | Incorrect | Unanswered

definition statsVerdict :: "Question \<Rightarrow> string option \<Rightarrow> verdict" where
  \<comment> \<open>the counter the loop increments for a question: \<open>stats.correct\<close>, \<open>stats.incorrect\<close>, or
      none when \<open>answers[q.id]\<close> is falsy\<close>
  "statsVerdict q ans =
     (case ans of None \<Rightarrow> Unanswered
      | Some a \<Rightarrow> if a = [] then Unanswered
                  else if practiceIsCorrect q a then Correct else Incorrect)"

definition isOptionCorrect :: "Question \<Rightarrow> string \<Rightarrow> int \<Rightarrow> bool" where
  "isOptionCorrect q optionText index =
     (let correctText = trim (correctAnswer q) in
      if isLabeledOption correctText then
        (case labeledIndex correctText of
           Some correctIndex \<Rightarrow> index = correctIndex
         | None \<Rightarrow> False)
      else if test False re_Letter_test correctText then
        (case letterIndex correctText of
           Some correctIndex \<Rightarrow> index = correctIndex
         | None \<Rightarrow> False)
      else if toLowerCase (trim optionText) = toLowerCase correctText then True
      else False)"

definition isAnswered :: "string option \<Rightarrow> bool" where
  "isAnswered selectedOption = truthy selectedOption"

definition isSelectedCorrect :: "Question \<Rightarrow> string option \<Rightarrow> bool" where
  "isSelectedCorrect q selectedOption =
     (case selectedOption of None \<Rightarrow> False
      | Some sel \<Rightarrow> if sel = [] then False
                    else (let idx = indexOf (options q) sel
                          in isOptionCorrect q sel idx))"

definition cardVerdict :: "Question \<Rightarrow> string option \<Rightarrow> verdict" where
  \<comment> \<open>what the card shows on the selected option: green, red, or no colour\<close>
  "cardVerdict q selectedOption =
     (if isAnswered selectedOption
      then (if isSelectedCorrect q selectedOption then Correct else Incorrect)
      else Unanswered)"

subsection \<open>The resolver in the words of the specification\<close>

text \<open>
  The three rules of the specification, written on the text itself and without regular
  expressions, to compare the check of the practice page with: rule 1 reads a text made
  of ``Option'' in any case, at most one blank and a letter A-D in any case or a digit
  1-4; rule 2 a text that is one letter A-D in any case; the first rule whose form the
  trimmed text has decides, by comparing the option at the index with the selected text;
  a text of neither form is compared with the selected text, both trimmed, without
  regard to case.
\<close>

definition resolve_labeled :: "string \<Rightarrow> int option" where
  "resolve_labeled text =
     (if (length text = 7 \<or> (length text = 8 \<and> isWhiteSpace (text ! 6))) \<and>
         map canonicalize (take 6 text) = ''OPTION''
      then (let c = last text in
            if c \<in> set ''ABCDabcd''
            then Some (int (of_char (canonicalize c)) - int (of_char CHR ''A''))
            else if c \<in> set ''1234'' then Some (int (of_char c) - int (of_char CHR ''0'') - 1)
            else None)
      else None)"

definition resolve_letter :: "string \<Rightarrow> int option" where
  "resolve_letter text =
     (case text of
        [c] \<Rightarrow> if c \<in> set ''ABCDabcd''
               then Some (int (of_char (canonicalize c)) - int (of_char CHR ''A''))
               else None
      | _ \<Rightarrow> None)"

definition resolve :: "string \<Rightarrow> string list \<Rightarrow> string \<Rightarrow> bool" where
  "resolve correctAnswerText opts selectedOptionText =
     (let text = trim correctAnswerText in
      case resolve_labeled text of
        Some i \<Rightarrow> nthOpt opts i = Some selectedOptionText
      | None \<Rightarrow>
          (case resolve_letter text of
             Some i \<Rightarrow> nthOpt opts i = Some selectedOptionText
           | None \<Rightarrow> toLowerCase (trim selectedOptionText) = toLowerCase text))"



section \<open>Tabular import\<close>

text \<open>
  \<open>parseCSV\<close> hands the text to the CSV library and works in its \<open>complete\<close> callback, on
  the header list (\<open>results.meta.fields\<close>) and the rows (\<open>results.data\<close>). A row is an object
  from header to cell text; here it is the list of its entries in the order of
  \<open>Object.keys\<close>, and \<open>row[k]\<close> is \<open>map_of row k\<close>. \<open>uuidv4()\<close> is a supply \<open>uuid\<close> of
  identifiers, read at a counter.
\<close>

type_synonym row = "(string \<times> string) list"

definition exactKey :: "row \<Rightarrow> string \<Rightarrow> string option" where
  "exactKey row target = find (\<lambda>k. toLowerCase (trim k) = toLowerCase target) (map fst row)"

definition fuzzyKey :: "row \<Rightarrow> string \<Rightarrow> string option" where
  "fuzzyKey row target =
     find (\<lambda>k. let keyLower = toLowerCase k; targetLower = toLowerCase target in
               if targetLower = ''question'' \<and>
                  (includes_str keyLower ''no'' \<or> includes_str keyLower ''id'' \<or>
                   includes_str keyLower ''number'')
               then False
               else includes_str keyLower targetLower)
          (map fst row)"

definition fuzzyVal :: "row \<Rightarrow> string \<Rightarrow> string option" where
  \<comment> \<open>\<open>fuzzyKey ? row[fuzzyKey] : undefined\<close>\<close>
  "fuzzyVal row target =
     (case fuzzyKey row target of None \<Rightarrow> None
      | Some k \<Rightarrow> if k = [] then None else map_of row k)"

definition getVal :: "row \<Rightarrow> string \<Rightarrow> string option" where
  "getVal row target =
     (case exactKey row target of None \<Rightarrow> fuzzyVal row target
      | Some k \<Rightarrow> if k = [] then fuzzyVal row target else map_of row k)"

definition push :: "string option \<Rightarrow> string list \<Rightarrow> string list" where
  \<comment> \<open>\<open>if (val) options.push(val)\<close>\<close>
  "push val opts = (case val of None \<Rightarrow> opts | Some v \<Rightarrow> if v = [] then opts else opts @ [v])"

definition optionLabels :: "string list" where
  "optionLabels = [''Option A'', ''Option B'', ''Option C'', ''Option D'']"

definition findOptions :: "row \<Rightarrow> string list" where
  \<comment> \<open>the four attempts, with the flag \<open>foundStandardOptions\<close> of the first\<close>
  "findOptions row =
     (let (opts, foundStandardOptions) =
            foldl (\<lambda>(os, found) optKey.
                     if truthy (map_of row optKey) then (push (map_of row optKey) os, True)
                     else (os, found))
                  ([], False) optionLabels;
          opts = (if \<not> foundStandardOptions \<or> length opts = 0
                  then foldl (\<lambda>os optKey. push (map_of row optKey) os) []
                         [''Option1'', ''Option2'', ''Option3'', ''Option4'']
                  else opts);
          opts = (if length opts = 0
                  then foldl (\<lambda>os optKey. push (map_of row optKey) os) opts
                         [''A'', ''B'', ''C'', ''D'']
                  else opts);
          opts = (if length opts = 0
                  then foldl (\<lambda>os optKey. push (getVal row optKey) os) opts optionLabels
                  else opts)
      in opts)"

definition nonBlank :: "string list \<Rightarrow> string list" where
  \<comment> \<open>\<open>options.filter(o => o && o.toString().trim().length > 0)\<close>\<close>
  "nonBlank opts = filter (\<lambda>opt. opt \<noteq> [] \<and> length (trim opt) > 0) opts"

fun dedupFilter :: "(string \<Rightarrow> string) \<Rightarrow> string list \<Rightarrow> string list \<Rightarrow> string list" where
  \<comment> \<open>the filter over a growing set \<open>seen\<close> of normalized texts\<close>
  "dedupFilter norm seen [] = []"
| "dedupFilter norm seen (opt # opts) =
     (let normalized = norm opt in
      if normalized \<in> set seen then dedupFilter norm seen opts
      else opt # dedupFilter norm (normalized # seen) opts)"

definition deduplicatedOptions :: "string list \<Rightarrow> string list" where
  \<comment> \<open>of the importer: normalized by \<open>opt.trim().toLowerCase()\<close>\<close>
  "deduplicatedOptions opts = dedupFilter (\<lambda>opt. toLowerCase (trim opt)) [] opts"

definition cleanedOptions :: "string list \<Rightarrow> string list" where
  \<comment> \<open>of \<open>validateAndCleanQuestions\<close> on the server, after each option was trimmed:
      normalized by \<open>opt.toLowerCase()\<close>\<close>
  "cleanedOptions opts = dedupFilter (\<lambda>opt. toLowerCase opt) [] opts"

definition re_extension :: re where
  \<comment> \<open>\<open>/\.(csv|txt|xlsx|xls)$/i\<close>\<close>
  "re_extension =
     seqs (lit ''.'' @
           [Grp (Alt (seqs (litI ''csv'')) (Alt (seqs (litI ''txt''))
                 (Alt (seqs (litI ''xlsx'')) (seqs (litI ''xls''))))), Eol])"

definition normalizeRow :: "string \<Rightarrow> string \<Rightarrow> nat \<Rightarrow> row \<Rightarrow> Question option" where
  \<comment> \<open>the body of the loop over the rows: \<open>None\<close> where it counts the row as skipped and
      returns, else the question it pushes, with the identifier drawn for it\<close>
  "normalizeRow newId sourceName index row =
     (case getVal row ''Question'' of None \<Rightarrow> None
      | Some questionText \<Rightarrow>
        if questionText = [] then None
        else
          (let opts = nonBlank (findOptions row);
               dedup = deduplicatedOptions opts
           in if length dedup < 2 then None
              else
                (let topicName = orString (orElse (map_of row ''Topic'') (getVal row ''Topic''))
                                   (replaceFirst False re_extension sourceName);
                     correctVal = orElse (orElse (orElse (map_of row ''Correct Answer'')
                                    (getVal row ''Correct Answer'')) (getVal row ''Correct''))
                                    (getVal row ''Answer'');
                     explanationVal = orElse (map_of row ''Explanation'') (getVal row ''Explanation'')
                 in Some \<lparr> qid = newId,
                           no = Some (orString (map_of row ''Question No.'') (showNat (index + 1))),
                           question = questionText,
                           options = dedup,
                           correctAnswer = orString correctVal (hd dedup),
                           explanation = explanationVal,
                           topic = topicName,
                           pageNo = None \<rparr>)))"

record importState =
  processedQuestions :: "Question list"
  skippedCount :: nat
  idCount :: nat

fun processRows :: "(nat \<Rightarrow> string) \<Rightarrow> string \<Rightarrow> nat \<Rightarrow> row list \<Rightarrow> importState \<Rightarrow> importState" where
  \<comment> \<open>\<open>results.data.forEach((row, index) => ...)\<close>, from \<open>index\<close> on\<close>
  "processRows uuid sourceName index [] st = st"
| "processRows uuid sourceName index (row # rows) st =
     processRows uuid sourceName (index + 1) rows
       (case normalizeRow (uuid (idCount st)) sourceName index row of
          None \<Rightarrow> st\<lparr>skippedCount := skippedCount st + 1\<rparr>
        | Some q \<Rightarrow> st\<lparr>processedQuestions := processedQuestions st @ [q],
                       idCount := idCount st + 1\<rparr>)"

definition protoKeys :: "string list" where
  \<comment> \<open>the property names an empty object literal inherits from \<open>Object.prototype\<close>\<close>
  "protoKeys = [''constructor'', ''__defineGetter__'', ''__defineSetter__'', ''hasOwnProperty'',
     ''__lookupGetter__'', ''__lookupSetter__'', ''isPrototypeOf'', ''propertyIsEnumerable'',
     ''toString'', ''valueOf'', ''__proto__'', ''toLocaleString'']"

fun groupByTopic :: "Question list \<Rightarrow> (string \<times> Question list) list
    \<Rightarrow> (string \<times> Question list) list option" where
  \<comment> \<open>the loop that fills \<open>questionsByTopic\<close>, an object used as a dictionary: on a topic
      named like an inherited property the test \<open>!questionsByTopic[finalTopic]\<close> is false and
      \<open>push\<close> is no function of the value found, a TypeError (\<open>None\<close>)\<close>
  "groupByTopic [] questionsByTopic = Some questionsByTopic"
| "groupByTopic (q # qs) questionsByTopic =
     (let finalTopic = orString (Some (topic q)) ''General'' in
      case map_of questionsByTopic finalTopic of
        Some _ \<Rightarrow>
          groupByTopic qs
            (map (\<lambda>(k, v). if k = finalTopic then (k, v @ [q]) else (k, v)) questionsByTopic)
      | None \<Rightarrow>
          if finalTopic \<in> set protoKeys then None
          else groupByTopic qs (questionsByTopic @ [(finalTopic, [q])]))"

definition isArrayIndex :: "string \<Rightarrow> bool" where
  \<comment> \<open>a key that is the decimal text of an integer from 0 to \<open>2^32 - 2\<close>\<close>
  "isArrayIndex k =
     (list_all isDigit k \<and> (k = ''0'' \<or> (case k of [] \<Rightarrow> False | c # _ \<Rightarrow> c \<noteq> CHR ''0'')) \<and>
      digitsValue k < 4294967295)"

definition objectEntries :: "(string \<times> 'a) list \<Rightarrow> (string \<times> 'a) list" where
  \<comment> \<open>\<open>Object.entries\<close>: the array-index keys in ascending order, then the other keys in
      the order they were added\<close>
  "objectEntries kvs =
     sort_key (\<lambda>(k, v). digitsValue k) (filter (\<lambda>(k, v). isArrayIndex k) kvs) @
     filter (\<lambda>(k, v). \<not> isArrayIndex k) kvs"

datatype importOutcome =
    InvalidFormat "string list"
  | NoQuestionsFound
  | TypeErrorThrown
  | ImportSuccessful "Topic list" nat nat

text \<open>
  The outcomes of the callback: the toast ``Invalid Format'' with the headers found; the
  toast ``No Questions Found'' (the specification's \<open>NoValidRows\<close>); the TypeError of the
  grouping loop; or the topics handed to \<open>onImport\<close>, in order, with the counts of the toast
  ``Import Successful'' (questions imported, rows skipped).
\<close>

definition importedTopics :: "importOutcome \<Rightarrow> Topic list" where
  \<comment> \<open>the calls of \<open>onImport\<close>\<close>
  "importedTopics out = (case out of ImportSuccessful ts n k \<Rightarrow> ts | _ \<Rightarrow> [])"

definition importRows :: "(nat \<Rightarrow> string) \<Rightarrow> row list \<Rightarrow> string \<Rightarrow> importOutcome" where
  \<comment> \<open>the callback from the loop over the rows on\<close>
  "importRows uuid rows sourceName =
     (let st = processRows uuid sourceName 0 rows
                 \<lparr>processedQuestions = [], skippedCount = 0, idCount = 0\<rparr>
      in if length (processedQuestions st) = 0 then NoQuestionsFound
         else
           (case groupByTopic (processedQuestions st) [] of
              None \<Rightarrow> TypeErrorThrown
            | Some questionsByTopic \<Rightarrow>
                ImportSuccessful
                  (map (\<lambda>(i, (name, qs)). \<lparr>tid = uuid (idCount st + i), name = name, questions = qs\<rparr>)
                       (enumerate 0 (objectEntries questionsByTopic)))
                  (length (processedQuestions st)) (skippedCount st)))"

definition parseCSV :: "(nat \<Rightarrow> string) \<Rightarrow> string list \<Rightarrow> row list \<Rightarrow> string \<Rightarrow> importOutcome" where
  \<comment> \<open>the \<open>complete\<close> callback, on \<open>results.meta.fields\<close> and \<open>results.data\<close>\<close>
  "parseCSV uuid headers rows sourceName =
     (let hasQuestion = list_ex (\<lambda>h. includes_str (toLowerCase h) ''question'') headers in
      if \<not> hasQuestion \<and> length headers > 0 then InvalidFormat headers
      else importRows uuid rows sourceName)"

subsection \<open>The option columns in the words of the specification\<close>









section \<open>Extraction of the JSON in a model response\<close>

text \<open>
  The handler of \<open>/api/extract-mcq\<close> (in \<open>routes.ts\<close> and, with the same text, in
  \<open>api-handler.ts\<close>) from the response text to the checks on \<open>result.questions\<close>.
  \<open>JSON.parse\<close> belongs to the language and is a parameter: it returns the message of the
  SyntaxError it throws, or the value. A number is kept when it is an integer; the handler
  only tests a number for being zero.
\<close>

datatype json =
    JNull
  | JBool bool
  | JNum int
  | JStr string
  | JArr "json list"
  | JObj "(string \<times> json) list"

definition member :: "json \<Rightarrow> string \<Rightarrow> json option" where
  \<comment> \<open>\<open>v.k\<close> for a value that is not \<open>null\<close> and a key that only an object can have as its
      own: \<open>None\<close> is \<open>undefined\<close>\<close>
  "member v k = (case v of JObj kvs \<Rightarrow> map_of kvs k | _ \<Rightarrow> None)"

definition truthyJ :: "json option \<Rightarrow> bool" where
  "truthyJ v = (case v of None \<Rightarrow> False | Some JNull \<Rightarrow> False | Some (JBool b) \<Rightarrow> b
                | Some (JNum n) \<Rightarrow> n \<noteq> 0 | Some (JStr s) \<Rightarrow> s \<noteq> [] | Some (JArr xs) \<Rightarrow> True
                | Some (JObj kvs) \<Rightarrow> True)"

definition isArray :: "json option \<Rightarrow> bool" where
  "isArray v = (case v of Some (JArr xs) \<Rightarrow> True | _ \<Rightarrow> False)"

definition arrayLength :: "json option \<Rightarrow> nat" where
  "arrayLength v = (case v of Some (JArr xs) \<Rightarrow> length xs | _ \<Rightarrow> 0)"

definition typeof :: "json option \<Rightarrow> string" where
  "typeof v = (case v of None \<Rightarrow> ''undefined'' | Some JNull \<Rightarrow> ''object''
               | Some (JBool b) \<Rightarrow> ''boolean'' | Some (JNum n) \<Rightarrow> ''number''
               | Some (JStr s) \<Rightarrow> ''string'' | Some (JArr xs) \<Rightarrow> ''object''
               | Some (JObj kvs) \<Rightarrow> ''object'')"

datatype extractError =
    NoJson string
  | ParseError string string
  | InvalidQuestions string
  | EmptyQuestions json

text \<open>
  The four error responses, all with status 400:
  \<^item> \<open>NoJson excerpt\<close>: ``Gemini returned no JSON. Response: '' and the excerpt;
  \<^item> \<open>ParseError message excerpt\<close>: ``JSON Parse Error: '', the message of the exception,
    `` | Response: '' and the excerpt;
  \<^item> \<open>InvalidQuestions type\<close>: ``Invalid format. Got type: '' and \<open>typeof result.questions\<close>;
  \<^item> \<open>EmptyQuestions result\<close>: ``Empty questions. Gemini said: '' and the start of the
    serialized result.
  The first two are the specification's \<open>MalformedResponse\<close>, the third its \<open>InvalidShape\<close>.
\<close>

definition status :: "extractError \<Rightarrow> nat" where
  "status e = 400"

definition isMalformedResponse :: "extractError \<Rightarrow> bool" where
  "isMalformedResponse e = (case e of NoJson x \<Rightarrow> True | ParseError msg x \<Rightarrow> True | _ \<Rightarrow> False)"

definition isInvalidShape :: "extractError \<Rightarrow> bool" where
  "isInvalidShape e = (case e of InvalidQuestions t \<Rightarrow> True | _ \<Rightarrow> False)"

definition backtick :: char where
  "backtick = CHR 0x60"


definition re_openFence :: re where
  \<comment> \<open>\<open>/^```(?:json)?\s*\n?/m\<close>\<close>
  "re_openFence =
     seqs ([Bol] @ lit [backtick, backtick, backtick] @
           [Opt (seqs (lit ''json'')), Many isWhiteSpace, Opt (cls [CHR 0x0A])])"

definition re_closeFence :: re where
  \<comment> \<open>\<open>/\n?```\s*$/m\<close>\<close>
  "re_closeFence =
     seqs ([Opt (cls [CHR 0x0A])] @ lit [backtick, backtick, backtick] @
           [Many isWhiteSpace, Eol])"

definition re_trailingComma :: re where
  \<comment> \<open>\<open>/,(\s*[\}\]])/g\<close>\<close>
  "re_trailingComma = seqs (lit '','' @ [Grp (seqs [Many isWhiteSpace, cls ''}]''])])"

definition nullTypeError :: string where
  \<comment> \<open>the message of the TypeError of \<open>result.questions\<close> on \<open>null\<close>\<close>
  "nullTypeError = ''Cannot read properties of null (reading 'questions')''"

definition stripFences :: "string \<Rightarrow> string" where
  "stripFences jsonStr = replaceFirst True re_closeFence (replaceFirst True re_openFence jsonStr)"

definition removeTrailingCommas :: "string \<Rightarrow> string" where
  "removeTrailingCommas jsonStr2 = replaceAllGroup1 False re_trailingComma None jsonStr2"

definition extractMcq :: "(string \<Rightarrow> string + json) \<Rightarrow> string \<Rightarrow> extractError + json" where
  "extractMcq JSON_parse responseText =
     (let jsonStr = trim responseText;
          jsonStr = stripFences jsonStr;
          firstBrace = indexOf jsonStr CHR ''{'';
          lastBrace = lastIndexOf jsonStr CHR ''}''
      in if firstBrace = - 1 \<or> lastBrace = - 1 \<or> firstBrace \<ge> lastBrace
         then Inl (NoJson (take 200 responseText))
         else
           (let jsonStr2 = substring jsonStr firstBrace (lastBrace + 1);
                jsonStr2 = removeTrailingCommas jsonStr2
            in case JSON_parse jsonStr2 of
                 Inl errorMsg \<Rightarrow> Inl (ParseError errorMsg (take 150 responseText))
               | Inr result \<Rightarrow>
                   if result = JNull then Inl (ParseError nullTypeError (take 150 responseText))
                   else if \<not> truthyJ (member result ''questions'') \<or>
                           \<not> isArray (member result ''questions'')
                   then Inl (InvalidQuestions (typeof (member result ''questions'')))
                   else if arrayLength (member result ''questions'') = 0
                   then Inl (EmptyQuestions result)
                   else Inr result))"

subsection \<open>The repair of trailing commas in the words of the specification\<close>

text \<open>
  A comma is a trailing comma when the next character that is not white space is a
  closing brace or bracket; the repair drops these commas and keeps every other character.
\<close>

definition closesNext :: "string \<Rightarrow> bool" where
  "closesNext cs =
     (case dropWhile isWhiteSpace cs of [] \<Rightarrow> False | d # _ \<Rightarrow> d = CHR ''}'' \<or> d = CHR '']'')"

fun dropTrailingCommas :: "string \<Rightarrow> string" where
  "dropTrailingCommas [] = []"
| "dropTrailingCommas (c # cs) =
     (if c = CHR '','' \<and> closesNext cs then dropTrailingCommas cs else c # dropTrailingCommas cs)"

definition JSON_parse_examples :: "string \<Rightarrow> string + json" where
  \<comment> \<open>\<open>JSON.parse\<close> on the texts of the examples below: three objects, the first of them
      the answer the prompt asks for when a page has no questions, and a text that is no
      JSON (other texts do not occur in the examples)\<close>
  "JSON_parse_examples text =
     (if text = ''{\"pageNo\": \"\", \"questions\": []}''
      then Inr (JObj [(''pageNo'', JStr []), (''questions'', JArr [])])
      else if text = ''{\"pageNo\":\"5\"}''
      then Inr (JObj [(''pageNo'', JStr ''5'')])
      else if text = ''{\"questions\":[{\"no\":\"1.\"}]}''
      then Inr (JObj [(''questions'', JArr [JObj [(''no'', JStr ''1.'')]])])
      else Inl ''Unexpected token'')"

section \<open>From a scanned question to the stored topic\<close>

text \<open>
  The way of a question of the OCR path after the server answered: the OCR page builds a
  \<open>Question\<close> from each element of the answer and sets the topic name when the user saves;
  \<open>addTopic\<close> of the store rebuilds every question field by field, posts the topic and
  updates its list of topics; the server rebuilds every question again and appends to the
  stored topic of the same identifier, if there is one. \<open>storage\<close> hands the row to the
  database and returns the row the database returns for it, the row written. On the way
  to the OCR page stands the cleaning step of \<open>routes.ts\<close>, which \<open>api-handler.ts\<close> does not
  have.
\<close>

definition ocrQuestion :: "string \<Rightarrow> Question \<Rightarrow> Question" where
  \<comment> \<open>the OCR page, for one element \<open>q\<close> of \<open>result.questions\<close> and a new identifier\<close>
  "ocrQuestion newId q =
     \<lparr> qid = newId,
       no = Some (orString (no q) []),
       question = question q,
       options = take 4 (options q),
       correctAnswer = correctAnswer q,
       explanation = explanation q,
       topic = [],
       pageNo = Some (orString (pageNo q) []) \<rparr>"

definition questionsWithTopic :: "string \<Rightarrow> Question list \<Rightarrow> Question list" where
  \<comment> \<open>\<open>saveTopic\<close>: \<open>extractedQuestions.map(q => ({...q, topic: topicName}))\<close>\<close>
  "questionsWithTopic topicName extractedQuestions =
     map (\<lambda>q. q\<lparr>topic := topicName\<rparr>) extractedQuestions"

definition preserveQuestionFields :: "Question list \<Rightarrow> Question list" where
  \<comment> \<open>of \<open>addTopic\<close> in the store\<close>
  "preserveQuestionFields qs =
     map (\<lambda>q. \<lparr> qid = qid q,
                no = Some (orString (no q) []),
                question = question q,
                options = options q,
                correctAnswer = correctAnswer q,
                explanation = Some (orString (explanation q) []),
                topic = orString (Some (topic q)) [],
                pageNo = Some (orString (pageNo q) []) \<rparr>) qs"

definition preserveQuestionFields_server :: "Question list \<Rightarrow> Question list" where
  \<comment> \<open>of the handler of \<open>POST /api/topics\<close>\<close>
  "preserveQuestionFields_server qs =
     map (\<lambda>q. \<lparr> qid = qid q,
                no = Some (orString (no q) []),
                question = question q,
                options = options q,
                correctAnswer = correctAnswer q,
                explanation = Some (orString (explanation q) []),
                topic = orString (Some (topic q)) [],
                pageNo = Some (orString (pageNo q) []) \<rparr>) qs"

definition postTopicQuestions :: "Topic option \<Rightarrow> Question list \<Rightarrow> Question list" where
  \<comment> \<open>the questions the handler writes, given the stored topic of the posted identifier
      (\<open>None\<close> when no identifier was posted or none is stored): it updates that topic with
      \<open>mergedQuestions\<close>, or adds a topic with \<open>preservedQuestions\<close>\<close>
  "postTopicQuestions existing qs =
     (let preservedQuestions = preserveQuestionFields_server qs in
      case existing of
        Some e \<Rightarrow> questions e @ preservedQuestions
      | None \<Rightarrow> preservedQuestions)"

definition mergeLocal :: "Topic list \<Rightarrow> Topic \<Rightarrow> Topic \<Rightarrow> Topic list" where
  \<comment> \<open>the update of the list of topics in \<open>addTopic\<close>, for the topic
      \<open>topicWithPreservedQuestions\<close>; appended when new is \<open>savedTopic\<close> after the server
      answered, the topic itself when it did not\<close>
  "mergeLocal prev topicWithPreservedQuestions appended =
     (case find (\<lambda>t. tid t = tid topicWithPreservedQuestions) prev of
        Some existingById \<Rightarrow>
          (let mergedQuestions =
                 questions existingById @
                 preserveQuestionFields (questions topicWithPreservedQuestions)
           in map (\<lambda>t. if tid t = tid topicWithPreservedQuestions
                        then t\<lparr>questions := mergedQuestions\<rparr> else t) prev)
      | None \<Rightarrow> prev @ [appended])"

definition addTopic :: "Topic list \<Rightarrow> Topic \<Rightarrow> Topic option \<Rightarrow> Topic list" where
  \<comment> \<open>\<open>addTopic\<close> on the list of topics \<open>prev\<close>; \<open>saved\<close> is the topic in the answer of the
      server, \<open>None\<close> when the request failed\<close>
  "addTopic prev newTopic saved =
     (let topicWithPreservedQuestions =
            newTopic\<lparr>questions := preserveQuestionFields (questions newTopic)\<rparr>
      in case saved of
           Some savedTopic \<Rightarrow> mergeLocal prev topicWithPreservedQuestions savedTopic
         | None \<Rightarrow> mergeLocal prev topicWithPreservedQuestions topicWithPreservedQuestions)"

definition validateAndCleanQuestions ::
    "(string \<Rightarrow> string) \<Rightarrow> Question list \<Rightarrow> string \<Rightarrow> Question list" where
  \<comment> \<open>of the handler of \<open>/api/extract-mcq\<close> in \<open>routes.ts\<close>, on the elements \<open>qs\<close> of
      \<open>result.questions\<close> and the page number \<open>pageNo\<close> of the batch; the fields of an element are
      the texts the prompt asks for, so that \<open>String\<close> leaves them as they are;
      \<open>toUpperCaseText\<close> is \<open>toUpperCase\<close> of the language on any text, a parameter\<close>
  "validateAndCleanQuestions toUpperCaseText qs batchPageNo =
     map (\<lambda>q. let opts = map trim (options q);
                   opts = cleanedOptions opts;
                   opts = opts @ replicate (4 - length opts) [];
                   opts = take 4 opts
               in \<lparr> qid = orString (Some (qid q)) [],
                    no = Some (trim (orString (no q) [])),
                    question = trim (orString (Some (question q)) []),
                    options = opts,
                    correctAnswer = toUpperCaseText (trim (orString (Some (correctAnswer q)) ''A'')),
                    explanation = Some (trim (orString (explanation q) [])),
                    topic = orString (Some (topic q)) [],
                    pageNo = Some batchPageNo \<rparr>) qs"

definition postTopic :: "string \<Rightarrow> Topic option \<Rightarrow> Topic \<Rightarrow> Topic option" where
  \<comment> \<open>the answer of the handler of \<open>POST /api/topics\<close> to the posted topic: \<open>None\<close> is the
      status 400 for a topic without a name; else the row \<open>storage\<close> returns, which is the
      stored topic with \<open>mergedQuestions\<close>, or a new row, under the identifier the
      database gives it, with \<open>preservedQuestions\<close>\<close>
  "postTopic newId existing body =
     (if name body = [] then None
      else case existing of
             Some e \<Rightarrow> Some (e\<lparr>questions := postTopicQuestions existing (questions body)\<rparr>)
           | None \<Rightarrow> Some \<lparr> tid = newId, name = name body,
                              questions = postTopicQuestions existing (questions body) \<rparr>)"

subsection \<open>Preservation in the words of the specification\<close>

definition keepsPageNo :: "Question \<Rightarrow> Question \<Rightarrow> bool" where
  \<comment> \<open>a page number that is set in \<open>q\<close> is, verbatim, the page number of \<open>q'\<close>\<close>
  "keepsPageNo q q' = (case pageNo q of None \<Rightarrow> True | Some p \<Rightarrow> pageNo q' = Some p)"

section \<open>Evaluation\<close>

lemma char_eq_char_of: "(c = char_of (n::nat)) = (take_bit 8 n = of_char c)"
  using char_of_eq_iff [of n c] by auto

lemmas string_evals = Let_def toLowerCase_def toUpperCase_def trim_def toLowerCaseChar_def
  canonicalize_def isWhiteSpace_def isLineTerminator_def isDigit_def char_of_eq_iff char_eq_char_of

section \<open>The deduplicator\<close>

lemma isWhiteSpace_toLowerCaseChar:
  "isWhiteSpace (toLowerCaseChar c) = isWhiteSpace c"
  by (auto simp add: isWhiteSpace_def toLowerCaseChar_def Let_def)

lemma dropWhile_toLowerCase:
  "dropWhile isWhiteSpace (map toLowerCaseChar s) = map toLowerCaseChar (dropWhile isWhiteSpace s)"
  by (induction s) (simp_all add: isWhiteSpace_toLowerCaseChar)

lemma trim_toLowerCase: "trim (toLowerCase s) = toLowerCase (trim s)"
  by (simp add: trim_def toLowerCase_def dropWhile_toLowerCase rev_map)

lemma toLowerCase_trim_cong:
  "toLowerCase a = toLowerCase b \<Longrightarrow> toLowerCase (trim a) = toLowerCase (trim b)"
  by (metis trim_toLowerCase)

lemma dedupFilter_not_seen:
  "y \<in> set (dedupFilter norm seen xs) \<Longrightarrow> norm y \<notin> set seen"
  by (induction xs arbitrary: seen) (fastforce simp add: Let_def split: if_splits)+

lemma dedupFilter_distinct:
  "distinct (map norm (dedupFilter norm seen xs))"
  by (induction xs arbitrary: seen) (auto simp add: Let_def dest: dedupFilter_not_seen)

lemma dedupFilter_subseq: "subseq (dedupFilter norm seen xs) xs"
  by (induction xs arbitrary: seen) (auto simp add: Let_def)

lemma dedupFilter_first:
  "dedupFilter norm seen xs =
     map (nth xs) (filter (\<lambda>i. norm (xs ! i) \<notin> set seen \<union> norm ` set (take i xs)) [0..<length xs])"
proof (induction xs arbitrary: seen)
  case Nil
  then show ?case by simp
next
  case (Cons x xs)
  have shift: "[0..<length (x # xs)] = 0 # map Suc [0..<length xs]"
    by (simp add: upt_conv_Cons map_Suc_upt del: upt_Suc)
  show ?case
    by (simp only: shift) (auto simp add: Let_def Cons.IH filter_map comp_def
        intro!: arg_cong[where f = "map ((!) xs)"] filter_cong)
qed

lemma distinct_map_coarser:
  assumes "distinct (map f xs)" and "\<And>a b. g a = g b \<Longrightarrow> f a = f b"
  shows "distinct (map g xs)"
  using assms unfolding distinct_map inj_on_def by blast

text \<open>
  C4. The deduplicator, in the importer (\<open>deduplicatedOptions\<close>) and in the cleaning step of
  the server (\<open>cleanedOptions\<close>): no two entries of the output are equal when compared
  without regard to case; the output is a subsequence of the input, so the order of the
  entries it keeps is the order they had; and it keeps exactly the first occurrences, the
  entries whose normalized text occurs at no earlier position of the input.
\<close>

theorem deduplicator_first_occurrences:
  "distinct (map toLowerCase (deduplicatedOptions xs)) \<and>
   subseq (deduplicatedOptions xs) xs \<and>
   deduplicatedOptions xs =
     map (nth xs) (filter (\<lambda>i. toLowerCase (trim (xs ! i)) \<notin> (\<lambda>x. toLowerCase (trim x)) ` set (take i xs))
                    [0..<length xs]) \<and>
   distinct (map toLowerCase (cleanedOptions xs)) \<and>
   subseq (cleanedOptions xs) xs \<and>
   cleanedOptions xs =
     map (nth xs) (filter (\<lambda>i. toLowerCase (xs ! i) \<notin> toLowerCase ` set (take i xs)) [0..<length xs])"
proof -
  have "distinct (map (\<lambda>opt. toLowerCase (trim opt)) (deduplicatedOptions xs))"
    unfolding deduplicatedOptions_def by (rule dedupFilter_distinct)
  then have 1: "distinct (map toLowerCase (deduplicatedOptions xs))"
    by (rule distinct_map_coarser) (rule toLowerCase_trim_cong)
  have 2: "subseq (deduplicatedOptions xs) xs"
    unfolding deduplicatedOptions_def by (rule dedupFilter_subseq)
  have 3: "deduplicatedOptions xs =
     map (nth xs) (filter (\<lambda>i. toLowerCase (trim (xs ! i)) \<notin> (\<lambda>x. toLowerCase (trim x)) ` set (take i xs))
                    [0..<length xs])"
    unfolding deduplicatedOptions_def by (subst dedupFilter_first) simp
  have 4: "distinct (map toLowerCase (cleanedOptions xs))"
    unfolding cleanedOptions_def by (rule dedupFilter_distinct)
  have 5: "subseq (cleanedOptions xs) xs"
    unfolding cleanedOptions_def by (rule dedupFilter_subseq)
  have 6: "cleanedOptions xs =
     map (nth xs) (filter (\<lambda>i. toLowerCase (xs ! i) \<notin> toLowerCase ` set (take i xs)) [0..<length xs])"
    unfolding cleanedOptions_def by (subst dedupFilter_first) simp
  from 1 2 3 4 5 6 show ?thesis by blast
qed

theorem deduplicator_first_occurrences_witness:
  "deduplicatedOptions [''Mars'', '' mars '', ''Venus'', ''MARS'', ''venus''] = [''Mars'', ''Venus''] \<and>
   distinct (map toLowerCase (deduplicatedOptions [''Mars'', '' mars '', ''Venus'', ''MARS'', ''venus''])) \<and>
   subseq (deduplicatedOptions [''Mars'', '' mars '', ''Venus'', ''MARS'', ''venus''])
     [''Mars'', '' mars '', ''Venus'', ''MARS'', ''venus'']"
proof -
  have a: "deduplicatedOptions [''Mars'', '' mars '', ''Venus'', ''MARS'', ''venus''] = [''Mars'', ''Venus'']"
    by (simp add: deduplicatedOptions_def string_evals)
  from a deduplicator_first_occurrences [of "[''Mars'', '' mars '', ''Venus'', ''MARS'', ''venus'']"]
  show ?thesis by blast
qed

section \<open>Regular expressions of the answer check\<close>

lemma rsearch_Bol_later:
  "rsearch False (Seq Bol r) pre (Some x) s = None"
  by (induction s arbitrary: pre x) simp_all

lemma test_anchored:
  "test False (Seq Bol r) s = (rmatch False r (None, s, None) \<noteq> [])"
  by (cases s) (auto simp add: test_def rsearch_Bol_later split: list.splits)

lemma rmatch_clsI:
  "rmatch m (clsI cs) (b, s, cap) =
     (case s of [] \<Rightarrow> [] | x # xs \<Rightarrow>
        if canonicalize x \<in> canonicalize ` set cs then [(Some x, xs, cap)] else [])"
  by (simp add: clsI_def)

lemma rmatch_litI:
  "rmatch m (foldr Seq (litI w) R) (b, s, cap) =
     (if length w \<le> length s \<and> map canonicalize (take (length w) s) = map canonicalize w
      then rmatch m R (if w = [] then b else Some (last (take (length w) s)), drop (length w) s, cap)
      else [])"
proof (induction w arbitrary: b s)
  case Nil
  then show ?case by (simp add: litI_def)
next
  case (Cons c w)
  have step: "foldr Seq (litI (c # w)) R = Seq (clsI [c]) (foldr Seq (litI w) R)"
    by (simp add: litI_def)
  show ?case
  proof (cases s)
    case Nil
    then show ?thesis by (simp add: step rmatch_clsI)
  next
    case (Cons x xs)
    have IH: "rmatch m (foldr Seq (litI w) R) (Some x, xs, cap) =
     (if length w \<le> length xs \<and> map canonicalize (take (length w) xs) = map canonicalize w
      then rmatch m R (if w = [] then Some x else Some (last (take (length w) xs)), drop (length w) xs, cap)
      else [])"
      by (rule Cons.IH)
    show ?thesis
      unfolding step Cons
      by (simp add: rmatch_clsI IH)
  qed
qed

lemma char_as_nat: "\<exists>n::nat. n < 256 \<and> c = char_of n"
  by (rule exI [of _ "of_char c"]) simp

lemma canon_letters:
  "canonicalize c \<in> canonicalize ` set ''ABCD'' \<longleftrightarrow> c \<in> set ''ABCDabcd''"
proof -
  obtain n :: nat where n: "n < 256" and c: "c = char_of n"
    using char_as_nat by blast
  show ?thesis
    unfolding c using n
    by (simp add: canonicalize_def Let_def char_of_eq_iff take_bit_eq_mod) arith
qed

lemma canon_digits:
  "canonicalize c \<in> canonicalize ` set ''1234'' \<longleftrightarrow> c \<in> set ''1234''"
  "canonicalize c \<in> canonicalize ` set ''0123456789'' \<longleftrightarrow> c \<in> set ''0123456789''"
proof -
  obtain n :: nat where n: "n < 256" and c: "c = char_of n"
    using char_as_nat by blast
  show "canonicalize c \<in> canonicalize ` set ''1234'' \<longleftrightarrow> c \<in> set ''1234''"
    unfolding c using n
    by (simp add: canonicalize_def Let_def char_of_eq_iff take_bit_eq_mod) arith
  show "canonicalize c \<in> canonicalize ` set ''0123456789'' \<longleftrightarrow> c \<in> set ''0123456789''"
    unfolding c using n
    by (simp add: canonicalize_def Let_def char_of_eq_iff take_bit_eq_mod) arith
qed

lemma canon_ws: "isWhiteSpace c \<Longrightarrow> c \<notin> set ''ABCDabcd0123456789''"
  by (auto simp add: isWhiteSpace_def)


lemma canon_Option: "map canonicalize ''Option'' = ''OPTION''"
  by (simp add: canonicalize_def char_of_eq_iff)

lemma length_litI [simp]: "length (litI w) = length w"
  by (simp add: litI_def)

lemma rmatch_Option:
  "rmatch m (foldr Seq (litI ''Option'') R) (b, s, cap) =
     (if 6 \<le> length s \<and> map canonicalize (take 6 s) = ''OPTION''
      then rmatch m R (Some (last (take 6 s)), drop 6 s, cap) else [])"
proof -
  have len: "length ''Option'' = 6" and ne: "''Option'' \<noteq> []"
    by simp_all
  show ?thesis
    by (simp only: rmatch_litI canon_Option len ne if_False)
qed

lemma option_test_split:
  "test False (seqs ([Bol] @ litI ''Option'' @ rest)) s \<longleftrightarrow>
     6 \<le> length s \<and> map canonicalize (take 6 s) = ''OPTION'' \<and>
     rmatch False (foldr Seq rest Eps) (Some (last (take 6 s)), drop 6 s, None) \<noteq> []"
proof -
  have "seqs ([Bol] @ litI ''Option'' @ rest) = Seq Bol (foldr Seq (litI ''Option'') (foldr Seq rest Eps))"
    by (simp add: seqs_def)
  then show ?thesis
    by (simp only: test_anchored rmatch_Option) auto
qed

lemma list_shape:
  "(t = []) \<or> (\<exists>a. t = [a]) \<or> (\<exists>a b. t = [a, b]) \<or> (\<exists>a b c u. t = a # b # c # u)"
  by (cases t; cases "tl t"; cases "tl (tl t)") auto

lemma tail_test:
  "rmatch False (foldr Seq [Opt ws, clsI cs, Eol] Eps) (b, t, cap) \<noteq> [] \<longleftrightarrow>
     (\<exists>c. canonicalize c \<in> canonicalize ` set cs \<and> (t = [c] \<or> (\<exists>sp. isWhiteSpace sp \<and> t = [sp, c])))"
  using list_shape [of t]
  by (auto simp add: ws_def rmatch_clsI)

lemma length_OPTION: "map canonicalize w = ''OPTION'' \<Longrightarrow> length w = 6"
  by (drule arg_cong [where f = length]) simp

lemma option_test_iff:
  "test False (seqs ([Bol] @ litI ''Option'' @ [Opt ws, clsI cs, Eol])) s \<longleftrightarrow>
     (\<exists>w c. map canonicalize w = ''OPTION'' \<and> canonicalize c \<in> canonicalize ` set cs \<and>
            (s = w @ [c] \<or> (\<exists>sp. isWhiteSpace sp \<and> s = w @ [sp, c])))"
  (is "?L \<longleftrightarrow> ?R")
proof
  assume ?L
  then have len: "6 \<le> length s" and pre: "map canonicalize (take 6 s) = ''OPTION''"
    and tl: "rmatch False (foldr Seq [Opt ws, clsI cs, Eol] Eps) (Some (last (take 6 s)), drop 6 s, None) \<noteq> []"
    unfolding option_test_split by blast+
  from tl obtain c where c: "canonicalize c \<in> canonicalize ` set cs"
    and t: "drop 6 s = [c] \<or> (\<exists>sp. isWhiteSpace sp \<and> drop 6 s = [sp, c])"
    unfolding tail_test by blast
  have "s = take 6 s @ drop 6 s" by simp
  with pre c t show ?R by metis
next
  assume ?R
  then obtain w c where w: "map canonicalize w = ''OPTION''"
    and c: "canonicalize c \<in> canonicalize ` set cs"
    and s: "s = w @ [c] \<or> (\<exists>sp. isWhiteSpace sp \<and> s = w @ [sp, c])"
    by (elim exE conjE) (rule that)
  from w have lw: "length w = 6" by (rule length_OPTION)
  from s lw have "6 \<le> length s" "take 6 s = w" and d: "drop 6 s = [c] \<or> (\<exists>sp. isWhiteSpace sp \<and> drop 6 s = [sp, c])"
    by auto
  moreover from d c have "rmatch False (foldr Seq [Opt ws, clsI cs, Eol] Eps) (Some (last (take 6 s)), drop 6 s, None) \<noteq> []"
    unfolding tail_test by blast
  ultimately show ?L
    unfolding option_test_split using w by simp
qed


lemma match_at_0:
  "rmatch m r (None, s, None) = st # rest \<Longrightarrow> rsearch m r [] None s = Some ([], st)"
  by (cases s) simp_all

lemma grp_tail_match:
  assumes c: "canonicalize c \<in> canonicalize ` set cs"
    and nows: "\<And>x. isWhiteSpace x \<Longrightarrow> canonicalize x \<notin> canonicalize ` set cs"
    and t: "t = [c] \<or> (\<exists>sp. isWhiteSpace sp \<and> t = [sp, c])"
  shows "rmatch False (foldr Seq [Opt ws, Grp (clsI cs)] Eps) (b, t, None) = [(Some c, [], Some [c])]"
  using c t nows by (auto simp add: ws_def rmatch_clsI)

lemma grp_tail_fail:
  assumes c: "canonicalize c \<notin> canonicalize ` set cs"
    and nows: "\<And>x. isWhiteSpace x \<Longrightarrow> canonicalize x \<notin> canonicalize ` set cs"
    and t: "t = [c] \<or> (\<exists>sp. isWhiteSpace sp \<and> t = [sp, c])"
  shows "rmatch False (foldr Seq [Opt ws, Grp (clsI cs)] Eps) (b, t, None) = []"
  using c t nows by (auto simp add: ws_def rmatch_clsI)

lemma nows_letters: "isWhiteSpace x \<Longrightarrow> canonicalize x \<notin> canonicalize ` set ''ABCD''"
  unfolding canon_letters by (auto simp add: isWhiteSpace_def)

lemma nows_digits: "isWhiteSpace x \<Longrightarrow> canonicalize x \<notin> canonicalize ` set ''0123456789''"
  unfolding canon_digits by (auto simp add: isWhiteSpace_def)

lemma option_match1:
  assumes w: "map canonicalize w = ''OPTION''"
    and c: "canonicalize c \<in> canonicalize ` set cs"
    and nows: "\<And>x. isWhiteSpace x \<Longrightarrow> canonicalize x \<notin> canonicalize ` set cs"
    and t: "t = [c] \<or> (\<exists>sp. isWhiteSpace sp \<and> t = [sp, c])"
  shows "match1 False (seqs (litI ''Option'' @ [Opt ws, Grp (clsI cs)])) (w @ t) = Some [c]"
proof -
  have lw: "length w = 6" using w by (rule length_OPTION)
  have r: "seqs (litI ''Option'' @ [Opt ws, Grp (clsI cs)]) =
           foldr Seq (litI ''Option'') (foldr Seq [Opt ws, Grp (clsI cs)] Eps)"
    by (simp add: seqs_def)
  have "rmatch False (seqs (litI ''Option'' @ [Opt ws, Grp (clsI cs)])) (None, w @ t, None) =
        [(Some c, [], Some [c])]"
    unfolding r rmatch_Option using lw w grp_tail_match [OF c nows t] by simp
  then have "rsearch False (seqs (litI ''Option'' @ [Opt ws, Grp (clsI cs)])) [] None (w @ t) =
        Some ([], (Some c, [], Some [c]))"
    by (rule match_at_0)
  then show ?thesis by (simp add: match1_def)
qed

lemma letter_search_fails:
  assumes w: "map canonicalize w = ''OPTION''"
    and d: "d \<in> set ''1234''"
    and t: "t = [d] \<or> (\<exists>sp. isWhiteSpace sp \<and> t = [sp, d])"
  shows "match1 False re_OptionLetter (w @ t) = None"
proof -
  from w obtain c1 c2 c3 c4 c5 c6 where w': "w = [c1, c2, c3, c4, c5, c6]"
    and cs: "canonicalize c1 = CHR ''O''" "canonicalize c2 = CHR ''P''" "canonicalize c3 = CHR ''T''"
      "canonicalize c4 = CHR ''I''" "canonicalize c5 = CHR ''O''" "canonicalize c6 = CHR ''N''"
    by (auto simp add: map_eq_Cons_conv)
  have dn: "canonicalize d \<notin> canonicalize ` set ''ABCD''"
    unfolding canon_letters using d by auto
  have tail0: "rmatch False (foldr Seq [Opt ws, Grp (clsI ''ABCD'')] Eps) (b, t, None) = []" for b
    by (rule grp_tail_fail [OF dn nows_letters t])
  have r: "re_OptionLetter = foldr Seq (litI ''Option'') (foldr Seq [Opt ws, Grp (clsI ''ABCD'')] Eps)"
    by (simp add: re_OptionLetter_def seqs_def)
  from t show ?thesis
    unfolding match1_def r w'
    by (auto simp add: rmatch_Option cs tail0 simp del: foldr.simps)
qed


lemma digit_search:
  assumes w: "map canonicalize w = ''OPTION''"
    and d: "d \<in> set ''1234''"
    and t: "t = [d] \<or> (\<exists>sp. isWhiteSpace sp \<and> t = [sp, d])"
  shows "match1 False re_OptionDigit (w @ t) = Some [d]"
proof -
  have "canonicalize d \<in> canonicalize ` set ''0123456789''"
    unfolding canon_digits using d by auto
  then show ?thesis
    unfolding re_OptionDigit_def by (rule option_match1 [OF w _ nows_digits t])
qed

lemma letter_search:
  assumes w: "map canonicalize w = ''OPTION''"
    and c: "c \<in> set ''ABCDabcd''"
    and t: "t = [c] \<or> (\<exists>sp. isWhiteSpace sp \<and> t = [sp, c])"
  shows "match1 False re_OptionLetter (w @ t) = Some [c]"
proof -
  have "canonicalize c \<in> canonicalize ` set ''ABCD''"
    unfolding canon_letters using c by auto
  then show ?thesis
    unfolding re_OptionLetter_def by (rule option_match1 [OF w _ nows_letters t])
qed

lemma labeledIndex_letter:
  assumes "map canonicalize w = ''OPTION''" and "c \<in> set ''ABCDabcd''"
    and "t = [c] \<or> (\<exists>sp. isWhiteSpace sp \<and> t = [sp, c])"
  shows "labeledIndex (w @ t) = Some (int (of_char (canonicalize c)) - 65)"
  using letter_search [OF assms]
  by (simp add: labeledIndex_def Let_def charCodeAt0_def toUpperCase_def)

lemma labeledIndex_digit:
  assumes "map canonicalize w = ''OPTION''" and d: "d \<in> set ''1234''"
    and "t = [d] \<or> (\<exists>sp. isWhiteSpace sp \<and> t = [sp, d])"
  shows "labeledIndex (w @ t) = Some (int (of_char d) - 49)"
proof -
  have "parseInt [d] = Some (int (of_char d) - 48)"
    using d by (auto simp add: parseInt_def isDigit_def digitsValue_def)
  then show ?thesis
    using letter_search_fails [OF assms] digit_search [OF assms]
    by (simp add: labeledIndex_def Let_def)
qed

lemma option_chars: "set ''ABCDabcd1234'' = set ''ABCDabcd'' \<union> set ''1234''"
  by auto

lemma ex_disj_join:
  "((\<exists>w c. P w \<and> A c \<and> Q w c) \<or> (\<exists>w c. P w \<and> B c \<and> Q w c)) =
   (\<exists>w c. P w \<and> (A c \<or> B c) \<and> Q w c)"
  by blast

lemma isLabeledOption_iff:
  "isLabeledOption s \<longleftrightarrow>
     (\<exists>w c. map canonicalize w = ''OPTION'' \<and> c \<in> set ''ABCDabcd1234'' \<and>
            (s = w @ [c] \<or> (\<exists>sp. isWhiteSpace sp \<and> s = w @ [sp, c])))"
  unfolding isLabeledOption_def re_OptionLetter_test_def re_OptionDigit_test_def option_test_iff
    canon_letters canon_digits option_chars Un_iff
  by (rule ex_disj_join)

lemma with_tail:
  assumes "s = w @ [c] \<or> (\<exists>sp. isWhiteSpace sp \<and> s = w @ [sp, c])"
  obtains t where "s = w @ t" and "t = [c] \<or> (\<exists>sp. isWhiteSpace sp \<and> t = [sp, c])"
proof -
  from assms show thesis
  proof (elim disjE exE conjE)
    assume "s = w @ [c]"
    then show thesis by (rule that) simp
  next
    fix sp
    assume "isWhiteSpace sp" and "s = w @ [sp, c]"
    then show thesis using that [of "[sp, c]"] by blast
  qed
qed

lemma letter_test_iff:
  "test False re_Letter_test s \<longleftrightarrow> (\<exists>c. s = [c] \<and> c \<in> set ''ABCDabcd'')"
proof -
  have r: "re_Letter_test = Seq Bol (foldr Seq [clsI ''ABCD'', Eol] Eps)"
    by (simp add: re_Letter_test_def seqs_def)
  have "rmatch False (foldr Seq [clsI ''ABCD'', Eol] Eps) (None, s, None) \<noteq> [] \<longleftrightarrow>
        (\<exists>c. s = [c] \<and> canonicalize c \<in> canonicalize ` set ''ABCD'')"
    using list_shape [of s] by (auto simp add: rmatch_clsI)
  then show ?thesis
    unfolding r test_anchored canon_letters .
qed

lemma letter_code:
  "c \<in> set ''ABCDabcd'' \<Longrightarrow> 0 \<le> int (of_char (canonicalize c)) - 65 \<and> int (of_char (canonicalize c)) - 65 \<le> 3"
  by (auto simp add: canonicalize_def)

lemma digit_code:
  "d \<in> set ''1234'' \<Longrightarrow> 0 \<le> int (of_char d) - 49 \<and> int (of_char d) - 49 \<le> 3"
  by auto

lemma labeledIndex_range:
  assumes "isLabeledOption s"
  shows "\<exists>i. labeledIndex s = Some i \<and> 0 \<le> i \<and> i \<le> 3"
proof -
  from assms obtain w c where w: "map canonicalize w = ''OPTION''" and c: "c \<in> set ''ABCDabcd1234''"
    and s: "s = w @ [c] \<or> (\<exists>sp. isWhiteSpace sp \<and> s = w @ [sp, c])"
    unfolding isLabeledOption_iff by (elim exE conjE) (rule that)
  from s obtain t where st: "s = w @ t" and t: "t = [c] \<or> (\<exists>sp. isWhiteSpace sp \<and> t = [sp, c])"
    by (rule with_tail)
  from c consider "c \<in> set ''ABCDabcd''" | "c \<in> set ''1234''"
    unfolding option_chars by blast
  then show ?thesis
  proof cases
    case 1
    from labeledIndex_letter [OF w 1 t] letter_code [OF 1] show ?thesis
      unfolding st by blast
  next
    case 2
    from labeledIndex_digit [OF w 2 t] digit_code [OF 2] show ?thesis
      unfolding st by blast
  qed
qed

lemma letterIndex_single: "letterIndex [c] = Some (int (of_char (canonicalize c)) - 65)"
  by (simp add: letterIndex_def charCodeAt0_def toUpperCase_def)

lemma letterIndex_range:
  assumes "test False re_Letter_test s"
  shows "\<exists>i. letterIndex s = Some i \<and> 0 \<le> i \<and> i \<le> 3"
  using assms letter_code unfolding letter_test_iff
  by (auto simp add: letterIndex_single simp del: set_simps)

section \<open>The answer check\<close>






lemma resolve_examples:
  "resolve ''Option B'' [''Earth'', ''Venus'', ''Mars'', ''Jupiter''] ''Venus''"
  "\<not> resolve ''Option B'' [''Earth'', ''Venus'', ''Mars'', ''Jupiter''] ''Mars''"
  "resolve ''C'' [''Earth'', ''Venus'', ''Mars'', ''Jupiter''] ''Mars''"
  "resolve ''1-ii, 2-iii'' opts ''1-ii, 2-iii''"
  by (simp_all add: resolve_def resolve_labeled_def resolve_letter_def nthOpt_def string_evals)

lemmas re_evals = re_OptionLetter_test_def re_OptionDigit_test_def re_OptionLetter_def
  re_OptionDigit_def re_Letter_test_def seqs_def cls_def clsI_def lit_def litI_def ws_def
  test_def match1_def isLabeledOption_def labeledIndex_def letterIndex_def charCodeAt0_def
  parseInt_def digitsValue_def

lemma indexOf_bounds: "- 1 \<le> indexOf xs x \<and> indexOf xs x < int (length xs)"
  by (induction xs) (auto simp add: Let_def)

lemma indexOf_member:
  "x \<in> set xs \<Longrightarrow> 0 \<le> indexOf xs x \<and> nthOpt xs (indexOf xs x) = Some x"
  by (induction xs) (auto simp add: Let_def nthOpt_def nat_add_distrib split: if_splits)

lemma nthOpt_unique:
  assumes "distinct xs" and "nthOpt xs i = Some x" and "nthOpt xs j = Some x"
  shows "i = j"
proof -
  from assms(2) have i: "0 \<le> i" "nat i < length xs" "xs ! nat i = x"
    by (auto simp add: nthOpt_def split: if_splits)
  from assms(3) have j: "0 \<le> j" "nat j < length xs" "xs ! nat j = x"
    by (auto simp add: nthOpt_def split: if_splits)
  from assms(1) i(2) j(2) have "(xs ! nat i = xs ! nat j) = (nat i = nat j)"
    by (rule nth_eq_iff_index_eq)
  with i(3) j(3) have "nat i = nat j" by simp
  with i(1) j(1) show ?thesis by simp
qed

lemma nthOpt_indexOf:
  assumes "distinct xs" and "x \<in> set xs"
  shows "(nthOpt xs i = Some x) = (indexOf xs x = i)"
  using indexOf_member [OF assms(2)] nthOpt_unique [OF assms(1)] by blast

lemma copies_agree:
  assumes d: "distinct (options q)" and m: "sel \<in> set (options q)"
  shows "practiceIsCorrect q sel = isOptionCorrect q sel (indexOf (options q) sel)"
proof (cases "isLabeledOption (trim (correctAnswer q))")
  case True
  then obtain i where i: "labeledIndex (trim (correctAnswer q)) = Some i" and "0 \<le> i"
    using labeledIndex_range by blast
  with True nthOpt_indexOf [OF d m, of i] show ?thesis
    by (auto simp add: practiceIsCorrect_def isOptionCorrect_def)
next
  case False
  show ?thesis
  proof (cases "test False re_Letter_test (trim (correctAnswer q))")
    case True
    then obtain i where "letterIndex (trim (correctAnswer q)) = Some i"
      using letterIndex_range by blast
    with True False nthOpt_indexOf [OF d m, of i] show ?thesis
      by (auto simp add: practiceIsCorrect_def isOptionCorrect_def)
  next
    case no: False
    with False show ?thesis
      by (simp add: practiceIsCorrect_def isOptionCorrect_def)
  qed
qed

text \<open>
  C10. The two copies of the answer check agree: for every question whose options are
  pairwise different and every selected text that is one of the options, the statistics
  loop of the practice page and the question card give the same verdict (correct,
  incorrect, or none for the empty text), and on a non-empty selection the local
  \<open>isCorrect\<close> of the loop equals \<open>isSelectedCorrect\<close> of the card.
\<close>

theorem resolver_copies_agree:
  assumes "distinct (options q)" and "sel \<in> set (options q)"
  shows "statsVerdict q (Some sel) = cardVerdict q (Some sel) \<and>
         (sel \<noteq> [] \<longrightarrow> practiceIsCorrect q sel = isSelectedCorrect q (Some sel))"
  using copies_agree [OF assms]
  by (simp add: statsVerdict_def cardVerdict_def isAnswered_def truthy_def isSelectedCorrect_def)

theorem resolver_copies_agree_witness:
  "distinct (options \<lparr>qid = ''q1'', no = None, question = ''Which planet?'',
       options = [''Earth'', ''Venus'', ''Mars'', ''Jupiter''], correctAnswer = ''Option B'',
       explanation = None, topic = ''General'', pageNo = None\<rparr>) \<and>
   ''Venus'' \<in> set (options \<lparr>qid = ''q1'', no = None, question = ''Which planet?'',
       options = [''Earth'', ''Venus'', ''Mars'', ''Jupiter''], correctAnswer = ''Option B'',
       explanation = None, topic = ''General'', pageNo = None\<rparr>) \<and>
   statsVerdict \<lparr>qid = ''q1'', no = None, question = ''Which planet?'',
       options = [''Earth'', ''Venus'', ''Mars'', ''Jupiter''], correctAnswer = ''Option B'',
       explanation = None, topic = ''General'', pageNo = None\<rparr> (Some ''Venus'') = Correct \<and>
   cardVerdict \<lparr>qid = ''q1'', no = None, question = ''Which planet?'',
       options = [''Earth'', ''Venus'', ''Mars'', ''Jupiter''], correctAnswer = ''Option B'',
       explanation = None, topic = ''General'', pageNo = None\<rparr> (Some ''Venus'') = Correct"
proof -
  let ?q = "\<lparr>qid = ''q1'', no = None, question = ''Which planet?'',
       options = [''Earth'', ''Venus'', ''Mars'', ''Jupiter''], correctAnswer = ''Option B'',
       explanation = None, topic = ''General'', pageNo = None\<rparr>"
  have d: "distinct (options ?q)" and m: "''Venus'' \<in> set (options ?q)"
    by simp_all
  have s: "statsVerdict ?q (Some ''Venus'') = Correct"
    by (simp add: statsVerdict_def practiceIsCorrect_def nthOpt_def re_evals string_evals)
  from resolver_copies_agree [OF d m] s d m show ?thesis
    by (simp del: set_simps distinct.simps)
qed

text \<open>
  C9. When rule 1 or rule 2 applies and the index it computes is outside the list of
  options, both copies of the check judge every selection as not correct: the read at the
  index gives no option (\<open>undefined\<close>), the comparison fails, and nothing is raised.
\<close>

theorem out_of_range_index_is_no_match:
  assumes "(isLabeledOption (trim (correctAnswer q)) \<and>
              labeledIndex (trim (correctAnswer q)) = Some i) \<or>
           (\<not> isLabeledOption (trim (correctAnswer q)) \<and>
              test False re_Letter_test (trim (correctAnswer q)) \<and>
              letterIndex (trim (correctAnswer q)) = Some i)"
    and "\<not> (0 \<le> i \<and> i < int (length (options q)))"
  shows "nthOpt (options q) i = None \<and>
         \<not> practiceIsCorrect q ans \<and> statsVerdict q (Some ans) \<noteq> Correct \<and>
         \<not> isOptionCorrect q ans (indexOf (options q) ans) \<and>
         \<not> isSelectedCorrect q (Some ans) \<and> cardVerdict q (Some ans) \<noteq> Correct"
proof -
  from assms(2) have none: "nthOpt (options q) i = None"
    by (simp add: nthOpt_def)
  from assms(1) have "0 \<le> i"
    using labeledIndex_range [of "trim (correctAnswer q)"] letterIndex_range [of "trim (correctAnswer q)"]
    by auto
  with assms(2) indexOf_bounds [of "options q" ans] have ne: "indexOf (options q) ans \<noteq> i"
    by auto
  from assms(1) none have p: "\<not> practiceIsCorrect q ans"
    by (auto simp add: practiceIsCorrect_def)
  from assms(1) ne have c: "\<not> isOptionCorrect q ans (indexOf (options q) ans)"
    by (auto simp add: isOptionCorrect_def)
  from none p c show ?thesis
    by (simp add: statsVerdict_def cardVerdict_def isSelectedCorrect_def)
qed

lemma labeledIndex_Option_D: "isLabeledOption ''Option D'' \<and> labeledIndex ''Option D'' = Some 3"
proof -
  have w: "map canonicalize ''Option'' = ''OPTION''" by (rule canon_Option)
  have c: "CHR ''D'' \<in> set ''ABCDabcd''" by simp
  have t: "'' D'' = [CHR ''D''] \<or> (\<exists>sp. isWhiteSpace sp \<and> '' D'' = [sp, CHR ''D''])"
    by (simp add: isWhiteSpace_def)
  from labeledIndex_letter [OF w c t] have "labeledIndex ''Option D'' = Some 3"
    by (simp add: canonicalize_def)
  moreover have "isLabeledOption ''Option D''"
    unfolding isLabeledOption_iff
    by (rule exI [of _ "''Option''"], rule exI [of _ "CHR ''D''"]) (simp add: string_evals)
  ultimately show ?thesis by (intro conjI)
qed

theorem out_of_range_index_is_no_match_witness:
  "isLabeledOption (trim (correctAnswer \<lparr>qid = ''q1'', no = None, question = ''True or false?'',
       options = [''True'', ''False''], correctAnswer = ''Option D'',
       explanation = None, topic = ''General'', pageNo = None\<rparr>)) \<and>
   labeledIndex (trim (correctAnswer \<lparr>qid = ''q1'', no = None, question = ''True or false?'',
       options = [''True'', ''False''], correctAnswer = ''Option D'',
       explanation = None, topic = ''General'', pageNo = None\<rparr>)) = Some 3 \<and>
   \<not> (0 \<le> (3::int) \<and> 3 < int (length (options \<lparr>qid = ''q1'', no = None, question = ''True or false?'',
       options = [''True'', ''False''], correctAnswer = ''Option D'',
       explanation = None, topic = ''General'', pageNo = None\<rparr>))) \<and>
   \<not> practiceIsCorrect \<lparr>qid = ''q1'', no = None, question = ''True or false?'',
       options = [''True'', ''False''], correctAnswer = ''Option D'',
       explanation = None, topic = ''General'', pageNo = None\<rparr> ''True'' \<and>
   \<not> isSelectedCorrect \<lparr>qid = ''q1'', no = None, question = ''True or false?'',
       options = [''True'', ''False''], correctAnswer = ''Option D'',
       explanation = None, topic = ''General'', pageNo = None\<rparr> (Some ''True'')"
proof -
  let ?q = "\<lparr>qid = ''q1'', no = None, question = ''True or false?'',
       options = [''True'', ''False''], correctAnswer = ''Option D'',
       explanation = None, topic = ''General'', pageNo = None\<rparr>"
  have t: "trim (correctAnswer ?q) = ''Option D''"
    by (simp add: string_evals)
  have h1: "(isLabeledOption (trim (correctAnswer ?q)) \<and> labeledIndex (trim (correctAnswer ?q)) = Some 3) \<or>
           (\<not> isLabeledOption (trim (correctAnswer ?q)) \<and>
              test False re_Letter_test (trim (correctAnswer ?q)) \<and>
              letterIndex (trim (correctAnswer ?q)) = Some 3)"
    unfolding t using labeledIndex_Option_D by blast
  have h2: "\<not> (0 \<le> (3::int) \<and> 3 < int (length (options ?q)))"
    by simp
  from out_of_range_index_is_no_match [OF h1 h2, of "''True''"] h2 labeledIndex_Option_D t
  show ?thesis by (simp del: set_simps)
qed

subsection \<open>The two copies and the resolver of the specification\<close>













section \<open>The tabular import\<close>







lemma toLowerCase_Nil_iff: "toLowerCase s = [] \<longleftrightarrow> s = []"
  by (simp add: toLowerCase_def)














lemma normalizeRow_None_iff:
  "normalizeRow newId sourceName index row = None \<longleftrightarrow>
     \<not> truthy (getVal row ''Question'') \<or>
     length (deduplicatedOptions (nonBlank (findOptions row))) < 2"
  unfolding normalizeRow_def truthy_def
  by (simp add: Let_def split: option.splits)

lemma normalizeRow_Some:
  assumes "normalizeRow newId sourceName index row = Some q"
  shows "options q = deduplicatedOptions (nonBlank (findOptions row)) \<and> pageNo q = None \<and>
     qid q = newId \<and> Some (question q) = getVal row ''Question''"
proof -
  from assms have "normalizeRow newId sourceName index row \<noteq> None" by simp
  then have t: "truthy (getVal row ''Question'')"
    and l: "\<not> length (deduplicatedOptions (nonBlank (findOptions row))) < 2"
    unfolding normalizeRow_None_iff by blast+
  from t obtain questionText where g: "getVal row ''Question'' = Some questionText"
    and ne: "questionText \<noteq> []"
    by (auto simp add: truthy_def split: option.splits)
  from assms have "\<exists>a b c d. q = \<lparr>qid = newId, no = a, question = questionText,
       options = deduplicatedOptions (nonBlank (findOptions row)), correctAnswer = b,
       explanation = c, topic = d, pageNo = None\<rparr>"
    unfolding normalizeRow_def g using ne l by (simp add: Let_def) blast
  then show ?thesis using g by auto
qed

lemma processRows_append:
  "processRows uuid src i (xs @ ys) st =
     processRows uuid src (i + length xs) ys (processRows uuid src i xs st)"
  by (induction xs arbitrary: i st) simp_all

lemma processRows_skip:
  "normalizeRow (uuid (idCount st)) src i row = None \<Longrightarrow>
     processRows uuid src i (row # rows) st =
       processRows uuid src (i + 1) rows (st\<lparr>skippedCount := skippedCount st + 1\<rparr>)"
  by simp

lemma processRows_all_skipped:
  assumes "\<forall>row\<in>set rows. \<not> truthy (getVal row ''Question'') \<or>
                length (deduplicatedOptions (nonBlank (findOptions row))) < 2"
  shows "processRows uuid src i rows st = st\<lparr>skippedCount := skippedCount st + length rows\<rparr>"
  using assms
proof (induction rows arbitrary: i st)
  case Nil
  then show ?case by simp
next
  case (Cons row rows)
  from Cons.prems have "normalizeRow (uuid (idCount st)) src i row = None"
    unfolding normalizeRow_None_iff by simp
  moreover from Cons.prems have "\<forall>row\<in>set rows. \<not> truthy (getVal row ''Question'') \<or>
                length (deduplicatedOptions (nonBlank (findOptions row))) < 2"
    by simp
  ultimately show ?case
    by (simp add: Cons.IH)
qed

lemma processRows_counts:
  "skippedCount (processRows uuid src i rows st) + length (processedQuestions (processRows uuid src i rows st)) =
     skippedCount st + length (processedQuestions st) + length rows"
  by (induction rows arbitrary: i st) (auto split: option.splits)

lemma groupByTopic_nonempty:
  assumes "groupByTopic qs acc = Some g" and "[] \<notin> snd ` set acc"
  shows "[] \<notin> snd ` set g"
  using assms
proof (induction qs arbitrary: acc)
  case Nil
  then show ?case by simp
next
  case (Cons q qs)
  let ?t = "orString (Some (topic q)) ''General''"
  show ?case
  proof (cases "map_of acc ?t")
    case None
    with Cons.prems(1) have g: "groupByTopic qs (acc @ [(?t, [q])]) = Some g"
      by (simp add: Let_def split: if_splits)
    from Cons.prems(2) have "[] \<notin> snd ` set (acc @ [(?t, [q])])" by auto
    with g show ?thesis by (rule Cons.IH)
  next
    case (Some e)
    with Cons.prems(1) have g: "groupByTopic qs (map (\<lambda>(k, v). if k = ?t then (k, v @ [q]) else (k, v)) acc) = Some g"
      by (simp add: Let_def)
    from Cons.prems(2) have "[] \<notin> snd ` set (map (\<lambda>(k, v). if k = ?t then (k, v @ [q]) else (k, v)) acc)"
      by (force split: if_splits)
    with g show ?thesis by (rule Cons.IH)
  qed
qed

lemma set_objectEntries: "set (objectEntries kvs) = set kvs"
  by (auto simp add: objectEntries_def)

lemma importRows_topics_nonempty:
  "\<forall>t\<in>set (importedTopics (importRows uuid rows src)). questions t \<noteq> []"
proof -
  let ?st = "processRows uuid src 0 rows \<lparr>processedQuestions = [], skippedCount = 0, idCount = 0\<rparr>"
  show ?thesis
  proof (cases "groupByTopic (processedQuestions ?st) []")
    case None
    then show ?thesis
      by (simp add: importRows_def importedTopics_def Let_def)
  next
    case (Some g)
    then have "[] \<notin> snd ` set g"
      by (rule groupByTopic_nonempty) simp
    then have "[] \<notin> snd ` set (objectEntries g)"
      by (simp add: set_objectEntries)
    moreover have "snd ` set (enumerate 0 (objectEntries g)) = set (objectEntries g)"
      by (metis map_snd_enumerate set_map)
    ultimately have "\<forall>e\<in>set (enumerate 0 (objectEntries g)). snd (snd e) \<noteq> []"
      by (metis imageI)
    moreover from Some have "importedTopics (importRows uuid rows src) = [] \<or>
        importedTopics (importRows uuid rows src) =
          map (\<lambda>e. \<lparr>tid = uuid (idCount ?st + fst e), name = fst (snd e), questions = snd (snd e)\<rparr>)
            (enumerate 0 (objectEntries g))"
      by (simp add: importRows_def importedTopics_def Let_def case_prod_beta)
    ultimately show ?thesis
      by fastforce
  qed
qed

lemma parseCSV_topics_nonempty:
  "\<forall>t\<in>set (importedTopics (parseCSV uuid headers rows src)). questions t \<noteq> []"
  using importRows_topics_nonempty [of uuid rows src]
  by (simp add: parseCSV_def Let_def importedTopics_def)




text \<open>
  C5. A row whose question cell is resolved to nothing or to the empty text, and a row
  with fewer than two different options left, is skipped: the loop body returns without a
  question, wherever the row stands in the batch the skipped count goes up by one, the
  questions collected so far and the identifier counter stay as they are, and the loop
  goes on with the next row. The loop body has no raising branch: every cell it reads is
  a text or missing.
\<close>

theorem skipped_rows_are_counted:
  assumes "\<not> truthy (getVal row ''Question'') \<or>
           length (deduplicatedOptions (nonBlank (findOptions row))) < 2"
  shows "normalizeRow newId sourceName index row = None \<and>
         processRows uuid sourceName index (before @ row # rest) st =
           processRows uuid sourceName (index + length before + 1) rest
             ((processRows uuid sourceName index before st)
                \<lparr>skippedCount := skippedCount (processRows uuid sourceName index before st) + 1\<rparr>)"
proof -
  from assms have n: "normalizeRow i sourceName k row = None" for i k
    unfolding normalizeRow_None_iff .
  then show ?thesis
    by (simp add: processRows_append)
qed

theorem skipped_rows_are_counted_witness:
  "\<not> truthy (getVal [(''Question'', ''''), (''Option A'', ''3''), (''Option B'', ''4'')] ''Question'') \<and>
   processRows showNat ''a.csv'' 0
     [[(''Question'', ''What is 2+2?''), (''Option A'', ''3''), (''Option B'', ''4'')],
      [(''Question'', ''''), (''Option A'', ''3''), (''Option B'', ''4'')],
      [(''Question'', ''What is 3+3?''), (''Option A'', ''6''), (''Option B'', ''7'')]]
     \<lparr>processedQuestions = [], skippedCount = 0, idCount = 0\<rparr> =
   \<lparr>processedQuestions =
      [\<lparr>qid = ''0'', no = Some ''1'', question = ''What is 2+2?'', options = [''3'', ''4''],
          correctAnswer = ''3'', explanation = None, topic = ''a'', pageNo = None\<rparr>,
       \<lparr>qid = ''1'', no = Some ''3'', question = ''What is 3+3?'', options = [''6'', ''7''],
          correctAnswer = ''6'', explanation = None, topic = ''a'', pageNo = None\<rparr>],
    skippedCount = 1, idCount = 2\<rparr>"
proof -
  let ?r1 = "[(''Question'', ''What is 2+2?''), (''Option A'', ''3''), (''Option B'', ''4'')]"
  let ?r = "[(''Question'', ''''), (''Option A'', ''3''), (''Option B'', ''4'')]"
  let ?r3 = "[(''Question'', ''What is 3+3?''), (''Option A'', ''6''), (''Option B'', ''7'')]"
  let ?st0 = "\<lparr>processedQuestions = [], skippedCount = 0, idCount = 0\<rparr>"
  have h: "\<not> truthy (getVal ?r ''Question'')"
    by code_simp
  then have h': "\<not> truthy (getVal ?r ''Question'') \<or>
           length (deduplicatedOptions (nonBlank (findOptions ?r))) < 2" ..
  have b: "processRows showNat ''a.csv'' 0 [?r1] ?st0 =
      \<lparr>processedQuestions =
      [\<lparr>qid = ''0'', no = Some ''1'', question = ''What is 2+2?'', options = [''3'', ''4''],
          correctAnswer = ''3'', explanation = None, topic = ''a'', pageNo = None\<rparr>],
       skippedCount = 0, idCount = 1\<rparr>"
    by code_simp
  have a: "processRows showNat ''a.csv'' 2 [?r3]
      \<lparr>processedQuestions =
      [\<lparr>qid = ''0'', no = Some ''1'', question = ''What is 2+2?'', options = [''3'', ''4''],
          correctAnswer = ''3'', explanation = None, topic = ''a'', pageNo = None\<rparr>],
       skippedCount = 1, idCount = 1\<rparr> =
      \<lparr>processedQuestions =
      [\<lparr>qid = ''0'', no = Some ''1'', question = ''What is 2+2?'', options = [''3'', ''4''],
          correctAnswer = ''3'', explanation = None, topic = ''a'', pageNo = None\<rparr>,
       \<lparr>qid = ''1'', no = Some ''3'', question = ''What is 3+3?'', options = [''6'', ''7''],
          correctAnswer = ''6'', explanation = None, topic = ''a'', pageNo = None\<rparr>],
    skippedCount = 1, idCount = 2\<rparr>"
    by code_simp
  have step: "processRows showNat ''a.csv'' 0 ([?r1] @ ?r # [?r3]) ?st0 =
        processRows showNat ''a.csv'' (0 + length [?r1] + 1) [?r3]
          ((processRows showNat ''a.csv'' 0 [?r1] ?st0)
             \<lparr>skippedCount := skippedCount (processRows showNat ''a.csv'' 0 [?r1] ?st0) + 1\<rparr>)"
    using skipped_rows_are_counted [OF h', where newId = "''0''" and sourceName = "''a.csv''"
      and index = 0 and uuid = showNat and before = "[?r1]" and rest = "[?r3]" and st = ?st0]
    by (rule conjunct2)
  have idx: "(0::nat) + length [x] + 1 = 2" for x :: row
    by simp
  have upd: "\<lparr>processedQuestions = qs, skippedCount = 0, idCount = 1\<rparr>
               \<lparr>skippedCount := skippedCount \<lparr>processedQuestions = qs, skippedCount = 0, idCount = 1\<rparr> + 1\<rparr> =
             \<lparr>processedQuestions = qs, skippedCount = 1, idCount = 1\<rparr>" for qs
    by simp
  have lst: "[x] @ y # [z] = [x, y, z]" for x y z :: row
    by simp
  from step have "processRows showNat ''a.csv'' 0 [?r1, ?r, ?r3] ?st0 =
      \<lparr>processedQuestions =
      [\<lparr>qid = ''0'', no = Some ''1'', question = ''What is 2+2?'', options = [''3'', ''4''],
          correctAnswer = ''3'', explanation = None, topic = ''a'', pageNo = None\<rparr>,
       \<lparr>qid = ''1'', no = Some ''3'', question = ''What is 3+3?'', options = [''6'', ''7''],
          correctAnswer = ''6'', explanation = None, topic = ''a'', pageNo = None\<rparr>],
    skippedCount = 1, idCount = 2\<rparr>"
    by (simp only: idx b upd lst a)
  with h show ?thesis by blast
qed

text \<open>
  C6. When every row of a batch is skipped, the orchestrator (the callback from the loop
  over the rows on) ends in ``No Questions Found'', the specification's \<open>NoValidRows\<close>, and
  hands no topic to \<open>onImport\<close>. \<open>parseCSV\<close> as a whole checks the headers before it: on
  such a batch it ends in ``No Questions Found'' or, when no header contains ``question'',
  in ``Invalid Format'', and hands over no topic either. On every batch whatsoever, each
  topic handed to \<open>onImport\<close> has at least one question.
\<close>

theorem all_rows_skipped_is_no_questions_found:
  assumes "\<forall>row\<in>set rows. \<not> truthy (getVal row ''Question'') \<or>
             length (deduplicatedOptions (nonBlank (findOptions row))) < 2"
  shows "importRows uuid rows sourceName = NoQuestionsFound \<and>
         importedTopics (importRows uuid rows sourceName) = [] \<and>
         parseCSV uuid headers rows sourceName \<in> {NoQuestionsFound, InvalidFormat headers} \<and>
         importedTopics (parseCSV uuid headers rows sourceName) = [] \<and>
         (\<forall>t\<in>set (importedTopics (parseCSV uuid' headers' rows' sourceName')). questions t \<noteq> [])"
proof -
  from assms have "processRows uuid sourceName 0 rows \<lparr>processedQuestions = [], skippedCount = 0, idCount = 0\<rparr> =
      \<lparr>processedQuestions = [], skippedCount = length rows, idCount = 0\<rparr>"
    by (simp add: processRows_all_skipped)
  then have i: "importRows uuid rows sourceName = NoQuestionsFound"
    by (simp add: importRows_def)
  then have p: "parseCSV uuid headers rows sourceName \<in> {NoQuestionsFound, InvalidFormat headers}"
    by (simp add: parseCSV_def Let_def)
  from i p parseCSV_topics_nonempty [of uuid' headers' rows' sourceName'] show ?thesis
    by (auto simp add: importedTopics_def)
qed

theorem all_rows_skipped_is_no_questions_found_witness:
  "\<not> truthy (getVal [(''Question'', []), (''Option A'', ''3''), (''Option B'', ''4'')] ''Question'') \<and>
   length (deduplicatedOptions (nonBlank (findOptions
     [(''Question'', ''Only one option?''), (''Option A'', ''3''), (''Option B'', ''3 '')]))) < 2 \<and>
   importRows showNat [[(''Question'', []), (''Option A'', ''3''), (''Option B'', ''4'')],
                 [(''Question'', ''Only one option?''), (''Option A'', ''3''), (''Option B'', ''3 '')]] ''a.csv'' =
     NoQuestionsFound \<and>
   importedTopics (parseCSV showNat [''Question'', ''Option A'', ''Option B'']
       [[(''Question'', []), (''Option A'', ''3''), (''Option B'', ''4'')],
        [(''Question'', ''Only one option?''), (''Option A'', ''3''), (''Option B'', ''3 '')]] ''a.csv'') = []"
proof -
  let ?ra = "[(''Question'', []), (''Option A'', ''3''), (''Option B'', ''4'')]"
  let ?rb = "[(''Question'', ''Only one option?''), (''Option A'', ''3''), (''Option B'', ''3 '')]"
  have a: "\<not> truthy (getVal ?ra ''Question'')"
    by code_simp
  have b: "length (deduplicatedOptions (nonBlank (findOptions ?rb))) < 2"
    by code_simp
  from a b have h: "\<forall>row\<in>set [?ra, ?rb]. \<not> truthy (getVal row ''Question'') \<or>
       length (deduplicatedOptions (nonBlank (findOptions row))) < 2"
    by simp
  from all_rows_skipped_is_no_questions_found [OF h, where uuid = showNat and sourceName = "''a.csv''"
      and headers = "[''Question'', ''Option A'', ''Option B'']"] a b
  show ?thesis by blast
qed

section \<open>The extraction of the JSON\<close>

subsection \<open>The braces\<close>

lemma indexOf_absent: "x \<notin> set xs \<Longrightarrow> indexOf xs x = - 1"
  by (induction xs) (auto simp add: Let_def)

lemma indexOf_first: "x \<notin> set pre \<Longrightarrow> indexOf (pre @ x # rest) x = int (length pre)"
  by (induction pre) (auto simp add: Let_def)

lemma indexOf_present: "x \<in> set xs \<Longrightarrow> \<exists>pre rest. xs = pre @ x # rest \<and> x \<notin> set pre"
  by (rule split_list_first)

lemma indexOf_neg_iff: "indexOf xs x = - 1 \<longleftrightarrow> x \<notin> set xs"
proof
  assume "indexOf xs x = - 1"
  show "x \<notin> set xs"
  proof
    assume "x \<in> set xs"
    then obtain pre rest where "xs = pre @ x # rest" "x \<notin> set pre"
      using split_list_first by fast
    then have "indexOf xs x = int (length pre)" by (simp add: indexOf_first)
    with \<open>indexOf xs x = - 1\<close> show False by simp
  qed
qed (rule indexOf_absent)

lemma lastIndexOf_last:
  "x \<notin> set post \<Longrightarrow> lastIndexOf (pre @ x # post) x = int (length pre)"
proof -
  assume a: "x \<notin> set post"
  have "rev (pre @ x # post) = rev post @ x # rev pre" by simp
  with a have "indexOf (rev (pre @ x # post)) x = int (length post)"
    by (simp add: indexOf_first)
  then show ?thesis by (simp add: lastIndexOf_def Let_def)
qed

lemma lastIndexOf_neg_iff: "lastIndexOf xs x = - 1 \<longleftrightarrow> x \<notin> set xs"
proof (cases "x \<in> set xs")
  case True
  then obtain pre post where "xs = pre @ x # post" "x \<notin> set post"
    using split_list_last by fast
  then have "lastIndexOf xs x = int (length pre)" by (simp add: lastIndexOf_last)
  with True show ?thesis by simp
next
  case False
  then show ?thesis by (simp add: lastIndexOf_def Let_def indexOf_absent)
qed

lemma braces_located:
  assumes s: "s = pre @ CHR ''{'' # mid @ CHR ''}'' # post"
    and pre: "CHR ''{'' \<notin> set pre" and post: "CHR ''}'' \<notin> set post"
  shows "indexOf s CHR ''{'' = int (length pre)"
    and "lastIndexOf s CHR ''}'' = int (length pre) + 1 + int (length mid)"
    and "substring s (indexOf s CHR ''{'') (lastIndexOf s CHR ''}'' + 1) = CHR ''{'' # mid @ ''}''"
proof -
  show a: "indexOf s CHR ''{'' = int (length pre)"
    unfolding s using pre by (rule indexOf_first)
  have "s = (pre @ CHR ''{'' # mid) @ CHR ''}'' # post" by (simp add: s)
  then have "lastIndexOf s CHR ''}'' = int (length (pre @ CHR ''{'' # mid))"
    using post lastIndexOf_last by metis
  then show b: "lastIndexOf s CHR ''}'' = int (length pre) + 1 + int (length mid)"
    by simp
  show "substring s (indexOf s CHR ''{'') (lastIndexOf s CHR ''}'' + 1) = CHR ''{'' # mid @ ''}''"
    unfolding a b by (simp add: substring_def s nat_add_distrib)
qed


lemma indexOf_le:
  "0 \<le> indexOf (pre @ x # rest) x \<and> indexOf (pre @ x # rest) x \<le> int (length pre)"
  by (induction pre) (auto simp add: Let_def)

lemma lastIndexOf_ge:
  "int (length pre) \<le> lastIndexOf (pre @ x # post) x"
proof -
  have "rev (pre @ x # post) = rev post @ x # rev pre" by simp
  then have "0 \<le> indexOf (rev (pre @ x # post)) x \<and>
             indexOf (rev (pre @ x # post)) x \<le> int (length (rev post))"
    using indexOf_le [of "rev post" x "rev pre"] by simp
  then show ?thesis by (simp add: lastIndexOf_def Let_def)
qed

lemma braces_found:
  assumes "s = pre @ CHR ''{'' # mid @ CHR ''}'' # post"
  shows "\<not> (indexOf s CHR ''{'' = - 1 \<or> lastIndexOf s CHR ''}'' = - 1 \<or>
            indexOf s CHR ''{'' \<ge> lastIndexOf s CHR ''}'')"
proof -
  have a: "0 \<le> indexOf s CHR ''{''" "indexOf s CHR ''{'' \<le> int (length pre)"
    unfolding assms using indexOf_le [of pre "CHR ''{''" "mid @ CHR ''}'' # post"] by simp_all
  have "s = (pre @ CHR ''{'' # mid) @ CHR ''}'' # post" by (simp add: assms)
  then have "int (length (pre @ CHR ''{'' # mid)) \<le> lastIndexOf s CHR ''}''"
    using lastIndexOf_ge by metis
  with a show ?thesis by simp
qed

lemma braces_decomposition:
  assumes "s = pre' @ CHR ''{'' # mid' @ CHR ''}'' # post'"
  shows "\<exists>pre mid post. s = pre @ CHR ''{'' # mid @ CHR ''}'' # post \<and>
           CHR ''{'' \<notin> set pre \<and> CHR ''}'' \<notin> set post"
proof -
  from braces_found [OF assms]
  have f: "indexOf s CHR ''{'' \<noteq> - 1" and l: "lastIndexOf s CHR ''}'' \<noteq> - 1"
    and lt: "indexOf s CHR ''{'' < lastIndexOf s CHR ''}''"
    by auto
  from f obtain pre r where s1: "s = pre @ CHR ''{'' # r" and p: "CHR ''{'' \<notin> set pre"
    unfolding indexOf_neg_iff using split_list_first by fast
  from l obtain q post where s2: "s = q @ CHR ''}'' # post" and q: "CHR ''}'' \<notin> set post"
    unfolding lastIndexOf_neg_iff using split_list_last by fast
  from s1 p have i1: "indexOf s CHR ''{'' = int (length pre)" by (simp add: indexOf_first)
  from s2 q have i2: "lastIndexOf s CHR ''}'' = int (length q)" by (simp add: lastIndexOf_last)
  from lt i1 i2 have len: "length pre < length q" by simp
  from s1 s2 have "pre @ CHR ''{'' # r = q @ CHR ''}'' # post" by simp
  with len obtain mid where "q = pre @ CHR ''{'' # mid"
    by (auto simp add: append_eq_append_conv2 Cons_eq_append_conv)
  with s2 have "s = pre @ CHR ''{'' # mid @ CHR ''}'' # post" by simp
  with p q show ?thesis by blast
qed

subsection \<open>The trailing commas\<close>

lemma concat_singletons: "concat (map (\<lambda>x. [x]) xs) = xs"
  by (induction xs) simp_all

lemma rmatch_Seq_Eps: "rmatch m (Seq r Eps) st = rmatch m r st"
proof -
  have "rmatch m Eps = (\<lambda>x. [x])" by (rule ext) simp
  then show ?thesis by (simp add: concat_singletons)
qed

lemma many_then_closer:
  "concat (map (rmatch False (cls ''}]'')) (many isWhiteSpace (b, cs, cap))) =
     (case dropWhile isWhiteSpace cs of
        [] \<Rightarrow> []
      | d # rest \<Rightarrow> if d = CHR ''}'' \<or> d = CHR '']'' then [(Some d, rest, cap)] else [])"
proof (induction cs arbitrary: b)
  case Nil
  then show ?case by (simp add: cls_def)
next
  case (Cons x xs)
  show ?case
  proof (cases "isWhiteSpace x")
    case True
    then have "x \<noteq> CHR ''}''" "x \<noteq> CHR '']''"
      by (auto simp add: isWhiteSpace_def)
    with True show ?thesis
      by (simp add: Cons.IH) (simp add: cls_def)
  next
    case False
    then show ?thesis by (auto simp add: cls_def)
  qed
qed

lemma length_dropWhile_le: "dropWhile P cs = d # rest \<Longrightarrow> length rest < length cs"
  by (metis length_dropWhile_le length_Cons less_Suc_eq_le Suc_le_lessD not_less_eq_eq le_imp_less_Suc)

lemma take_dropWhile:
  "dropWhile P cs = d # rest \<Longrightarrow> take (length cs - length rest) cs = takeWhile P cs @ [d]"
proof -
  assume a: "dropWhile P cs = d # rest"
  have cs: "cs = takeWhile P cs @ d # rest"
    using a takeWhile_dropWhile_id [of P cs] by simp
  then have "length cs - length rest = length (takeWhile P cs @ [d])"
    by (metis add_diff_cancel_right' append.assoc append_Cons append_Nil length_append)
  moreover have "cs = (takeWhile P cs @ [d]) @ rest" using cs by simp
  ultimately show ?thesis
    by (metis append_eq_conv_conj)
qed

lemma rmatch_trailingComma:
  "rmatch False re_trailingComma (b, s, None) =
     (case s of
        [] \<Rightarrow> []
      | c # cs \<Rightarrow>
          if c = CHR '','' \<and> closesNext cs
          then (case dropWhile isWhiteSpace cs of
                  d # rest \<Rightarrow> [(Some d, rest, Some (takeWhile isWhiteSpace cs @ [d]))]
                | [] \<Rightarrow> [])
          else [])"
proof (cases s)
  case Nil
  then show ?thesis by (simp add: re_trailingComma_def seqs_def lit_def cls_def)
next
  case (Cons c cs)
  have r: "re_trailingComma = Seq (cls '','') (Seq (Grp (Seq (Many isWhiteSpace) (Seq (cls ''}]'') Eps))) Eps)"
    by (simp add: re_trailingComma_def seqs_def lit_def)
  have inner: "rmatch False (Seq (Many isWhiteSpace) (Seq (cls ''}]'') Eps)) (b', cs, cap) =
        concat (map (rmatch False (cls ''}]'')) (many isWhiteSpace (b', cs, cap)))" for b' cap
    unfolding rmatch.simps(3) [of False "Many isWhiteSpace"] rmatch_Seq_Eps by simp
  have A: "rmatch False (cls '','') (b, c # cs, None) = (if c = CHR '','' then [(Some c, cs, None)] else [])"
    by (simp add: cls_def)
  have G: "rmatch False (Grp (Seq (Many isWhiteSpace) (Seq (cls ''}]'') Eps))) (b', cs, None) =
      map (\<lambda>(b', s', c'). (b', s', Some (take (length cs - length s') cs)))
        (case dropWhile isWhiteSpace cs of
            [] \<Rightarrow> []
          | d # rest \<Rightarrow> if d = CHR ''}'' \<or> d = CHR '']'' then [(Some d, rest, None :: string option)] else [])" for b'
    by (simp only: rmatch.simps(9) inner many_then_closer)
  have R: "rmatch False re_trailingComma (b, c # cs, None) =
     (if c = CHR '','' then map (\<lambda>(b', s', c'). (b', s', Some (take (length cs - length s') cs)))
        (case dropWhile isWhiteSpace cs of
            [] \<Rightarrow> []
          | d # rest \<Rightarrow> if d = CHR ''}'' \<or> d = CHR '']'' then [(Some d, rest, None :: string option)] else [])
      else [])"
    unfolding r rmatch.simps(3) [of False "cls '',''"] A rmatch_Seq_Eps
    by (simp add: G del: rmatch.simps)
  show ?thesis
  proof (cases "dropWhile isWhiteSpace cs")
    case Nil
    show ?thesis by (simp only: Cons R closesNext_def Nil list.case cong: if_cong) simp
  next
    case (Cons d rest)
    from take_dropWhile [OF Cons] have t: "take (length cs - length rest) cs = takeWhile isWhiteSpace cs @ [d]" .
    show ?thesis using t by (simp only: \<open>s = c # cs\<close> R closesNext_def Cons list.case cong: if_cong) simp
  qed
qed

lemma dropTrailingCommas_keeps:
  "\<forall>x\<in>set xs. x \<noteq> CHR '','' \<Longrightarrow> dropTrailingCommas (xs @ ys) = xs @ dropTrailingCommas ys"
  by (induction xs) simp_all

lemma whiteSpace_not_comma: "isWhiteSpace x \<Longrightarrow> x \<noteq> CHR '',''"
  by (auto simp add: isWhiteSpace_def)

lemma dropTrailingCommas_closer:
  assumes "dropWhile isWhiteSpace cs = d # rest" and "d = CHR ''}'' \<or> d = CHR '']''"
  shows "dropTrailingCommas cs = takeWhile isWhiteSpace cs @ [d] @ dropTrailingCommas rest"
proof -
  have cs: "cs = (takeWhile isWhiteSpace cs @ [d]) @ rest"
    using assms(1) takeWhile_dropWhile_id [of isWhiteSpace cs] by simp
  have "\<forall>x\<in>set (takeWhile isWhiteSpace cs @ [d]). x \<noteq> CHR '',''"
    using assms(2) by (auto dest: set_takeWhileD whiteSpace_not_comma)
  from dropTrailingCommas_keeps [OF this, of rest] cs show ?thesis
    by simp
qed

lemma replaceAll_trailingComma:
  "replaceAllGroup1 False re_trailingComma b s = dropTrailingCommas s"
proof (induction "length s" arbitrary: b s rule: less_induct)
  case less
  show ?case
  proof (cases s)
    case Nil
    then show ?thesis
      by (simp add: replaceAllGroup1.simps [of False re_trailingComma b "[]"] rmatch_trailingComma)
  next
    case (Cons c cs)
    show ?thesis
    proof (cases "c = CHR '','' \<and> closesNext cs")
      case False
      have ih: "replaceAllGroup1 False re_trailingComma (Some c) cs = dropTrailingCommas cs"
        by (rule less) (simp add: Cons)
      have m: "rmatch False re_trailingComma (b, c # cs, None) = []"
        using False by (simp only: rmatch_trailingComma list.case if_False)
      have "replaceAllGroup1 False re_trailingComma b (c # cs) =
          c # replaceAllGroup1 False re_trailingComma (Some c) cs"
        by (simp add: replaceAllGroup1.simps [of False re_trailingComma b "c # cs"] m)
      with False ih show ?thesis
        unfolding Cons by auto
    next
      case True
      then obtain d rest where d: "dropWhile isWhiteSpace cs = d # rest" "d = CHR ''}'' \<or> d = CHR '']''"
        by (auto simp add: closesNext_def split: list.splits)
      have len: "length rest < length cs"
        using d(1) by (rule length_dropWhile_le)
      have ih: "replaceAllGroup1 False re_trailingComma (Some d) rest = dropTrailingCommas rest"
        by (rule less) (use len Cons in simp)
      have m: "rmatch False re_trailingComma (b, c # cs, None) =
          [(Some d, rest, Some (takeWhile isWhiteSpace cs @ [d]))]"
        using True by (simp only: rmatch_trailingComma list.case d(1) cong: if_cong) simp
      have "replaceAllGroup1 False re_trailingComma b (c # cs) =
          (takeWhile isWhiteSpace cs @ [d]) @ dropTrailingCommas rest"
        using len by (simp add: replaceAllGroup1.simps [of False re_trailingComma b "c # cs"] m group1_def ih)
      also have "\<dots> = dropTrailingCommas (c # cs)"
        using True dropTrailingCommas_closer [OF d] by simp
      finally show ?thesis unfolding Cons .
    qed
  qed
qed

lemma removeTrailingCommas_eq: "removeTrailingCommas s = dropTrailingCommas s"
  by (simp add: removeTrailingCommas_def replaceAll_trailingComma)

subsection \<open>The outcomes of the handler\<close>


lemma extractMcq_sliced:
  assumes "stripFences (trim raw) = pre @ CHR ''{'' # mid @ CHR ''}'' # post"
    and "CHR ''{'' \<notin> set pre" and "CHR ''}'' \<notin> set post"
  shows "extractMcq JSON_parse raw =
     (case JSON_parse (dropTrailingCommas (CHR ''{'' # mid @ ''}'')) of
        Inl errorMsg \<Rightarrow> Inl (ParseError errorMsg (take 150 raw))
      | Inr result \<Rightarrow>
          if result = JNull then Inl (ParseError nullTypeError (take 150 raw))
          else if \<not> isArray (member result ''questions'')
          then Inl (InvalidQuestions (typeof (member result ''questions'')))
          else if arrayLength (member result ''questions'') = 0
          then Inl (EmptyQuestions result)
          else Inr result)"
proof -
  have t: "isArray v \<Longrightarrow> truthyJ v" for v
    by (auto simp add: isArray_def truthyJ_def split: option.splits json.splits)
  from braces_located [OF assms]
  show ?thesis
    by (auto simp add: extractMcq_def Let_def removeTrailingCommas_eq t split: sum.splits)
qed

subsection \<open>The fence markers\<close>
























subsection \<open>The claims on the extraction\<close>


lemma isArray_not_null: "isArray (member v k) \<Longrightarrow> v \<noteq> JNull"
  by (auto simp add: isArray_def member_def)




text \<open>
  Claim C2, as stated, fails on the handler: a payload with an empty sequence of questions
  is no result. The answer the prompt asks for when a page has no questions, \<open>{"pageNo": "", "questions": []}\<close>,
  parses to an object with an empty sequence of questions, and the handler answers it
  with the error \<open>EmptyQuestions\<close> and status 400, not with a result.
\<close>

theorem empty_questions_is_a_failure:
  "JSON_parse_examples ''{\"pageNo\": \"\", \"questions\": []}'' =
     Inr (JObj [(''pageNo'', JStr []), (''questions'', JArr [])]) \<and>
   extractMcq JSON_parse_examples ''{\"pageNo\": \"\", \"questions\": []}'' =
     Inl (EmptyQuestions (JObj [(''pageNo'', JStr []), (''questions'', JArr [])])) \<and>
   status (EmptyQuestions (JObj [(''pageNo'', JStr []), (''questions'', JArr [])])) = 400"
  by code_simp

text \<open>
  Claim C2, as the handler has it. When the parser succeeds and the field \<open>questions\<close> of the
  parsed value is an empty sequence, the request fails: the answer is \<open>EmptyQuestions\<close> with
  the parsed value and status 400, which is neither a \<open>MalformedResponse\<close> nor an
  \<open>InvalidShape\<close>. No result with an empty sequence of questions reaches the caller.
\<close>

theorem empty_questions_is_rejected:
  assumes "stripFences (trim raw) = pre @ CHR ''{'' # mid @ CHR ''}'' # post"
    and "CHR ''{'' \<notin> set pre" and "CHR ''}'' \<notin> set post"
    and "JSON_parse (dropTrailingCommas (CHR ''{'' # mid @ ''}'')) = Inr v"
    and "isArray (member v ''questions'')" and "arrayLength (member v ''questions'') = 0"
  shows "extractMcq JSON_parse raw = Inl (EmptyQuestions v) \<and>
     status (EmptyQuestions v) = 400 \<and>
     \<not> isMalformedResponse (EmptyQuestions v) \<and> \<not> isInvalidShape (EmptyQuestions v)"
  using assms(4-6) isArray_not_null [OF assms(5)]
  by (simp add: extractMcq_sliced [OF assms(1-3)] status_def isMalformedResponse_def isInvalidShape_def)

theorem empty_questions_is_rejected_witness:
  "extractMcq JSON_parse_examples ''{\"pageNo\": \"\", \"questions\": []}'' =
     Inl (EmptyQuestions (JObj [(''pageNo'', JStr []), (''questions'', JArr [])])) \<and>
   status (EmptyQuestions (JObj [(''pageNo'', JStr []), (''questions'', JArr [])])) = 400 \<and>
   \<not> isMalformedResponse (EmptyQuestions (JObj [(''pageNo'', JStr []), (''questions'', JArr [])])) \<and>
   \<not> isInvalidShape (EmptyQuestions (JObj [(''pageNo'', JStr []), (''questions'', JArr [])]))"
proof -
  let ?v = "JObj [(''pageNo'', JStr []), (''questions'', JArr [])]"
  have s: "stripFences (trim ''{\"pageNo\": \"\", \"questions\": []}'') =
      [] @ CHR ''{'' # ''\"pageNo\": \"\", \"questions\": []'' @ CHR ''}'' # []"
    by code_simp
  have b: "CHR ''{'' \<notin> set []" "CHR ''}'' \<notin> set []"
    by simp_all
  have p: "JSON_parse_examples (dropTrailingCommas (CHR ''{'' # ''\"pageNo\": \"\", \"questions\": []'' @ ''}'')) = Inr ?v"
    by code_simp
  have a: "isArray (member ?v ''questions'')" "arrayLength (member ?v ''questions'') = 0"
    by code_simp+
  show ?thesis
    by (rule empty_questions_is_rejected [where JSON_parse = JSON_parse_examples and pre = "[]"
          and mid = "''\"pageNo\": \"\", \"questions\": []''" and post = "[]", OF s b p a])
qed

section \<open>The page number of a question\<close>

lemma orString_Some: "orString (Some p) [] = p"
  by (simp add: orString_def orElse_def truthy_def split: option.splits)

lemma keepsPageNo_refl: "keepsPageNo q q"
  by (simp add: keepsPageNo_def split: option.splits)

lemma keepsPageNo_trans: "keepsPageNo q q' \<Longrightarrow> keepsPageNo q' q'' \<Longrightarrow> keepsPageNo q q''"
  by (auto simp add: keepsPageNo_def split: option.splits)

lemma keepsPageNo_default: "pageNo q' = Some (orString (pageNo q) []) \<Longrightarrow> keepsPageNo q q'"
  by (auto simp add: keepsPageNo_def orString_Some split: option.splits)

lemma list_all2_keeps_refl: "list_all2 keepsPageNo qs qs"
  by (simp add: list_all2_refl keepsPageNo_refl)

lemma list_all2_keeps_trans:
  "list_all2 keepsPageNo xs ys \<Longrightarrow> list_all2 keepsPageNo ys zs \<Longrightarrow> list_all2 keepsPageNo xs zs"
  by (rule list_all2_trans [of keepsPageNo keepsPageNo keepsPageNo]) (auto intro: keepsPageNo_trans)

lemma list_all2_map_right: "(\<And>x. x \<in> set xs \<Longrightarrow> P x (f x)) \<Longrightarrow> list_all2 P xs (map f xs)"
  by (induction xs) simp_all

lemma ocrQuestion_keeps: "keepsPageNo q (ocrQuestion newId q)"
  by (rule keepsPageNo_default) (simp add: ocrQuestion_def)

lemma questionsWithTopic_keeps: "list_all2 keepsPageNo qs (questionsWithTopic topicName qs)"
  unfolding questionsWithTopic_def
  by (rule list_all2_map_right) (simp add: keepsPageNo_def split: option.splits)

lemma preserveQuestionFields_keeps: "list_all2 keepsPageNo qs (preserveQuestionFields qs)"
  unfolding preserveQuestionFields_def
  by (rule list_all2_map_right) (rule keepsPageNo_default, simp)

lemma preserveQuestionFields_server_keeps: "list_all2 keepsPageNo qs (preserveQuestionFields_server qs)"
  unfolding preserveQuestionFields_server_def
  by (rule list_all2_map_right) (rule keepsPageNo_default, simp)

lemma postTopicQuestions_keeps:
  "list_all2 keepsPageNo ((case existing of None \<Rightarrow> [] | Some e \<Rightarrow> questions e) @ qs)
     (postTopicQuestions existing qs)"
  by (cases existing)
     (simp_all add: postTopicQuestions_def Let_def preserveQuestionFields_server_keeps
        list_all2_appendI list_all2_keeps_refl)

lemma find_distinct:
  assumes "distinct (map tid prev)" and "find (\<lambda>t. tid t = i) prev = Some e" and "t \<in> set prev" and "tid t = i"
  shows "t = e"
proof -
  from assms(2) have "e \<in> set prev" "tid e = i"
    by (auto simp add: find_Some_iff)
  with assms(1,3,4) show ?thesis
    by (metis distinct_map inj_on_def)
qed

lemma mergeLocal_existing:
  assumes d: "distinct (map tid prev)" and f: "find (\<lambda>t. tid t = tid tw) prev = Some e"
  shows "list_all2 (\<lambda>t t'. tid t' = tid t \<and>
            list_all2 keepsPageNo (questions t @ (if tid t = tid tw then questions tw else []))
              (questions t'))
          prev (mergeLocal prev tw appended)"
proof -
  have m: "mergeLocal prev tw appended =
      map (\<lambda>t. if tid t = tid tw
                then t\<lparr>questions := questions e @ preserveQuestionFields (questions tw)\<rparr> else t) prev"
    by (simp add: mergeLocal_def f Let_def)
  show ?thesis
    unfolding m
  proof (rule list_all2_map_right)
    fix t assume t: "t \<in> set prev"
    show "tid (if tid t = tid tw
                then t\<lparr>questions := questions e @ preserveQuestionFields (questions tw)\<rparr> else t) = tid t \<and>
          list_all2 keepsPageNo (questions t @ (if tid t = tid tw then questions tw else []))
            (questions (if tid t = tid tw
                then t\<lparr>questions := questions e @ preserveQuestionFields (questions tw)\<rparr> else t))"
    proof (cases "tid t = tid tw")
      case True
      with find_distinct [OF d f t] have "t = e" by simp
      with True show ?thesis
        by (simp add: list_all2_appendI list_all2_keeps_refl preserveQuestionFields_keeps)
    next
      case False
      then show ?thesis by (simp add: list_all2_keeps_refl)
    qed
  qed
qed

lemma addTopic_existing:
  assumes d: "distinct (map tid prev)" and f: "find (\<lambda>t. tid t = tid newTopic) prev = Some e"
  shows "list_all2 (\<lambda>t t'. tid t' = tid t \<and>
            list_all2 keepsPageNo (questions t @ (if tid t = tid newTopic then questions newTopic else []))
              (questions t'))
          prev (addTopic prev newTopic saved)"
proof -
  let ?tw = "newTopic\<lparr>questions := preserveQuestionFields (questions newTopic)\<rparr>"
  have f': "find (\<lambda>t. tid t = tid ?tw) prev = Some e" using f by simp
  have k: "list_all2 keepsPageNo (questions t @ (if tid t = tid newTopic then questions newTopic else []))
             (questions t @ (if tid t = tid ?tw then questions ?tw else []))" for t
    by (simp add: list_all2_appendI list_all2_keeps_refl preserveQuestionFields_keeps)
  have "list_all2 (\<lambda>t t'. tid t' = tid t \<and>
            list_all2 keepsPageNo (questions t @ (if tid t = tid newTopic then questions newTopic else []))
              (questions t'))
          prev (mergeLocal prev ?tw appended)" for appended
    using mergeLocal_existing [OF d f', of appended]
    by (rule list_all2_mono) (use k list_all2_keeps_trans in blast)
  then show ?thesis
    by (cases saved) (simp_all add: addTopic_def Let_def)
qed

lemma addTopic_new:
  assumes "find (\<lambda>t. tid t = tid newTopic) prev = None"
  shows "addTopic prev newTopic saved =
     prev @ [case saved of Some savedTopic \<Rightarrow> savedTopic
             | None \<Rightarrow> newTopic\<lparr>questions := preserveQuestionFields (questions newTopic)\<rparr>]"
  using assms by (cases saved) (simp_all add: addTopic_def mergeLocal_def Let_def)

lemma groupByTopic_questions:
  assumes "groupByTopic qs acc = Some g"
  shows "set (concat (map snd g)) = set (concat (map snd acc)) \<union> set qs"
  using assms
proof (induction qs arbitrary: acc)
  case Nil
  then show ?case by simp
next
  case (Cons q qs)
  let ?t = "orString (Some (topic q)) ''General''"
  show ?case
  proof (cases "map_of acc ?t")
    case None
    with Cons.prems have g: "groupByTopic qs (acc @ [(?t, [q])]) = Some g"
      by (simp add: Let_def split: if_splits)
    from Cons.IH [OF g] show ?thesis by auto
  next
    case (Some v)
    let ?acc = "map (\<lambda>(k, v). if k = ?t then (k, v @ [q]) else (k, v)) acc"
    from Some Cons.prems have g: "groupByTopic qs ?acc = Some g"
      by (simp add: Let_def)
    from Some have "(?t, v) \<in> set acc" by (rule map_of_SomeD)
    then have "set (concat (map snd ?acc)) = set (concat (map snd acc)) \<union> {q}"
      by (induction acc) (auto split: if_splits)
    with Cons.IH [OF g] show ?thesis by auto
  qed
qed

lemma importRows_questions:
  assumes "importRows uuid rows src = ImportSuccessful topics n k"
  shows "set (concat (map questions topics)) =
     set (processedQuestions (processRows uuid src 0 rows
            \<lparr>processedQuestions = [], skippedCount = 0, idCount = 0\<rparr>))"
proof -
  let ?st = "processRows uuid src 0 rows \<lparr>processedQuestions = [], skippedCount = 0, idCount = 0\<rparr>"
  from assms obtain g where g: "groupByTopic (processedQuestions ?st) [] = Some g"
    and t: "topics = map (\<lambda>(i, (name, qs)). \<lparr>tid = uuid (idCount ?st + i), name = name, questions = qs\<rparr>)
                       (enumerate 0 (objectEntries g))"
    by (auto simp add: importRows_def Let_def split: if_splits option.splits)
  have "map questions topics = map (snd \<circ> snd) (enumerate 0 (objectEntries g))"
    unfolding t by (simp add: case_prod_beta comp_def)
  also have "\<dots> = map snd (objectEntries g)"
    by (simp add: map_snd_enumerate flip: map_map)
  finally have "set (concat (map questions topics)) = set (concat (map snd (objectEntries g)))"
    by simp
  also have "\<dots> = set (concat (map snd g))"
    by (simp add: set_objectEntries)
  also have "\<dots> = set (processedQuestions ?st)"
    using groupByTopic_questions [OF g] by simp
  finally show ?thesis .
qed

lemma keepsPageNo_set:
  "list_all2 keepsPageNo qs qs' \<Longrightarrow> list_all (\<lambda>q. pageNo q \<noteq> None) qs \<Longrightarrow>
   map pageNo qs' = map pageNo qs"
  by (induction rule: list_all2_induct) (auto simp add: keepsPageNo_def split: option.splits)

lemma processRows_pageNo:
  "\<forall>q\<in>set (processedQuestions st). pageNo q = None \<Longrightarrow>
   \<forall>q\<in>set (processedQuestions (processRows uuid src i rows st)). pageNo q = None"
proof (induction rows arbitrary: i st)
  case Nil
  then show ?case by simp
next
  case (Cons row rows)
  show ?case
  proof (cases "normalizeRow (uuid (idCount st)) src i row")
    case None
    with Cons.IH [of "st\<lparr>skippedCount := skippedCount st + 1\<rparr>" "i + 1"] Cons.prems
    show ?thesis by simp
  next
    case (Some q)
    from normalizeRow_Some [OF Some] have "pageNo q = None" by simp
    with Cons.IH [of "st\<lparr>processedQuestions := processedQuestions st @ [q], idCount := idCount st + 1\<rparr>" "i + 1"]
      Cons.prems Some
    show ?thesis by simp
  qed
qed

lemma importRows_pageNo:
  assumes "importRows uuid rows src = ImportSuccessful topics n k"
  shows "\<forall>t\<in>set topics. \<forall>q\<in>set (questions t). pageNo q = None"
proof (intro ballI)
  fix t q assume "t \<in> set topics" and "q \<in> set (questions t)"
  then have "q \<in> set (concat (map questions topics))" by auto
  then have "q \<in> set (processedQuestions (processRows uuid src 0 rows
            \<lparr>processedQuestions = [], skippedCount = 0, idCount = 0\<rparr>))"
    unfolding importRows_questions [OF assms] .
  with processRows_pageNo [of "\<lparr>processedQuestions = [], skippedCount = 0, idCount = 0\<rparr>" uuid src 0 rows]
  show "pageNo q = None" by simp
qed

lemma validateAndCleanQuestions_pageNo:
  "list_all2 (\<lambda>q q'. pageNo q' = Some batchPageNo) qs
     (validateAndCleanQuestions toUpperCaseText qs batchPageNo)"
  unfolding validateAndCleanQuestions_def
  by (rule list_all2_map_right) (simp add: Let_def)

lemma postTopic_keeps:
  assumes "postTopic newId existing body = Some savedTopic"
  shows "list_all2 keepsPageNo ((case existing of None \<Rightarrow> [] | Some e \<Rightarrow> questions e) @ questions body)
     (questions savedTopic)"
proof -
  from assms have "questions savedTopic = postTopicQuestions existing (questions body)"
    by (auto simp add: postTopic_def split: if_splits option.splits)
  then show ?thesis by (simp add: postTopicQuestions_keeps)
qed

lemma addTopic_new_local:
  assumes "find (\<lambda>t. tid t = tid newTopic) prev = None"
  shows "butlast (addTopic prev newTopic None) = prev \<and>
     list_all2 keepsPageNo (questions newTopic) (questions (last (addTopic prev newTopic None)))"
  by (simp add: addTopic_new [OF assms] preserveQuestionFields_keeps)

lemma addTopic_new_saved:
  assumes f: "find (\<lambda>t. tid t = tid newTopic) prev = None"
    and p: "postTopic newId existing (newTopic\<lparr>questions := preserveQuestionFields (questions newTopic)\<rparr>) =
        Some savedTopic"
  shows "butlast (addTopic prev newTopic (Some savedTopic)) = prev \<and>
     list_all2 keepsPageNo
       ((case existing of None \<Rightarrow> [] | Some e \<Rightarrow> questions e) @ questions newTopic)
       (questions (last (addTopic prev newTopic (Some savedTopic))))"
proof -
  let ?ex = "case existing of None \<Rightarrow> [] | Some e \<Rightarrow> questions e"
  have "list_all2 keepsPageNo (?ex @ questions newTopic) (?ex @ preserveQuestionFields (questions newTopic))"
    by (simp add: list_all2_appendI list_all2_keeps_refl preserveQuestionFields_keeps)
  moreover from postTopic_keeps [OF p]
  have "list_all2 keepsPageNo (?ex @ preserveQuestionFields (questions newTopic)) (questions savedTopic)"
    by simp
  ultimately have "list_all2 keepsPageNo (?ex @ questions newTopic) (questions savedTopic)"
    by (rule list_all2_keeps_trans)
  then show ?thesis
    by (simp add: addTopic_new [OF f])
qed

lemma normalizeRow_pageNo: "normalizeRow newId sourceName index row = Some q \<Longrightarrow> pageNo q = None"
  using normalizeRow_Some by blast

text \<open>
  Claim C8, as stated, fails on the cleaning step of \<open>routes.ts\<close>, the normalizer and
  deduplicator of the OCR path: a question that comes with the page number 7, in a batch
  for which the page number 22 was detected, leaves the step with the page number 22.
\<close>

theorem cleaning_overwrites_pageNo:
  "pageNo \<lparr>qid = [], no = Some ''7.'', question = ''What is 1+1?'', options = [''2'', ''3''],
       correctAnswer = ''A'', explanation = None, topic = [], pageNo = Some ''7''\<rparr> = Some ''7'' \<and>
   map pageNo (validateAndCleanQuestions toUpperCase
     [\<lparr>qid = [], no = Some ''7.'', question = ''What is 1+1?'', options = [''2'', ''3''],
        correctAnswer = ''A'', explanation = None, topic = [], pageNo = Some ''7''\<rparr>] ''22'') =
     [Some ''22''] \<and>
   \<not> keepsPageNo \<lparr>qid = [], no = Some ''7.'', question = ''What is 1+1?'', options = [''2'', ''3''],
       correctAnswer = ''A'', explanation = None, topic = [], pageNo = Some ''7''\<rparr>
     (hd (validateAndCleanQuestions toUpperCase
       [\<lparr>qid = [], no = Some ''7.'', question = ''What is 1+1?'', options = [''2'', ''3''],
          correctAnswer = ''A'', explanation = None, topic = [], pageNo = Some ''7''\<rparr>] ''22''))"
  by (simp add: validateAndCleanQuestions_def keepsPageNo_def Let_def)

text \<open>
  Claim C8, as the code has it. \<open>keepsPageNo q q'\<close> says that \<open>q'\<close> has the page number of \<open>q\<close>
  when \<open>q\<close> has one, and \<open>list_all2\<close> that the questions correspond one to one, none dropped.
  \<^item> The cleaning step of \<open>routes.ts\<close> gives every question the page number detected for
    the batch, whatever the question came with.
  \<^item> From there on a page number that is set is kept verbatim: by the OCR page, by the
    step that sets the topic name, by \<open>preserveQuestionFields\<close> of the store and of the
    server, and by the way through all of them.
  \<^item> The server writes, and answers with, the questions of the stored topic followed by
    the posted ones, all with their page numbers.
  \<^item> \<open>addTopic\<close>: with a topic of the same identifier in the list (identifiers differ
    from topic to topic), every topic of the list stays, with its questions and their
    page numbers, and the topic of that identifier gets the new questions with theirs;
    with no such topic, the list stays and one topic is appended, which has the page
    numbers of the new questions, both when the server did not answer and when the
    appended topic is the answer of the server.
  \<^item> The tabular import sets no page number: the row normalizer, with the deduplicator
    in it, builds every question without one, and the orchestrator hands over, within the
    topics, exactly the questions the loop over the rows collected.
\<close>

theorem pageNo_kept_after_the_cleaning_step:
  "list_all2 (\<lambda>q q'. pageNo q' = Some batchPageNo) qs
     (validateAndCleanQuestions toUpperCaseText qs batchPageNo) \<and>
   keepsPageNo q (ocrQuestion newId q) \<and>
   list_all2 keepsPageNo qs (questionsWithTopic topicName qs) \<and>
   list_all2 keepsPageNo qs (preserveQuestionFields qs) \<and>
   list_all2 keepsPageNo qs (preserveQuestionFields_server qs) \<and>
   list_all2 keepsPageNo ((case existing of None \<Rightarrow> [] | Some e \<Rightarrow> questions e) @ qs)
     (postTopicQuestions existing qs) \<and>
   list_all2 keepsPageNo qs
     (postTopicQuestions None (preserveQuestionFields (questionsWithTopic topicName qs))) \<and>
   (postTopic newId existing body = Some savedTopic \<longrightarrow>
      list_all2 keepsPageNo ((case existing of None \<Rightarrow> [] | Some e \<Rightarrow> questions e) @ questions body)
        (questions savedTopic)) \<and>
   (distinct (map tid prev) \<and> find (\<lambda>t. tid t = tid newTopic) prev \<noteq> None \<longrightarrow>
      list_all2 (\<lambda>t t'. tid t' = tid t \<and>
          list_all2 keepsPageNo (questions t @ (if tid t = tid newTopic then questions newTopic else []))
            (questions t'))
        prev (addTopic prev newTopic saved)) \<and>
   (find (\<lambda>t. tid t = tid newTopic) prev = None \<longrightarrow>
      butlast (addTopic prev newTopic None) = prev \<and>
      list_all2 keepsPageNo (questions newTopic) (questions (last (addTopic prev newTopic None)))) \<and>
   (find (\<lambda>t. tid t = tid newTopic) prev = None \<and>
    postTopic newId existing (newTopic\<lparr>questions := preserveQuestionFields (questions newTopic)\<rparr>) =
      Some savedTopic \<longrightarrow>
      butlast (addTopic prev newTopic (Some savedTopic)) = prev \<and>
      list_all2 keepsPageNo
        ((case existing of None \<Rightarrow> [] | Some e \<Rightarrow> questions e) @ questions newTopic)
        (questions (last (addTopic prev newTopic (Some savedTopic))))) \<and>
   (normalizeRow newId sourceName index row = Some q \<longrightarrow> pageNo q = None) \<and>
   (importRows uuid rows sourceName = ImportSuccessful topics n k \<longrightarrow>
      set (concat (map questions topics)) =
        set (processedQuestions (processRows uuid sourceName 0 rows
               \<lparr>processedQuestions = [], skippedCount = 0, idCount = 0\<rparr>)) \<and>
      (\<forall>t\<in>set topics. \<forall>q\<in>set (questions t). pageNo q = None))"
proof -
  have e2e: "list_all2 keepsPageNo qs
     (postTopicQuestions None (preserveQuestionFields (questionsWithTopic topicName qs)))"
  proof -
    have "list_all2 keepsPageNo qs (preserveQuestionFields (questionsWithTopic topicName qs))"
      using questionsWithTopic_keeps preserveQuestionFields_keeps by (rule list_all2_keeps_trans)
    moreover have "list_all2 keepsPageNo (preserveQuestionFields (questionsWithTopic topicName qs))
        (postTopicQuestions None (preserveQuestionFields (questionsWithTopic topicName qs)))"
      using postTopicQuestions_keeps [of None] by simp
    ultimately show ?thesis by (rule list_all2_keeps_trans)
  qed
  have pt: "postTopic newId existing body = Some savedTopic \<longrightarrow>
      list_all2 keepsPageNo ((case existing of None \<Rightarrow> [] | Some e \<Rightarrow> questions e) @ questions body)
        (questions savedTopic)"
    using postTopic_keeps by blast
  have ex: "distinct (map tid prev) \<and> find (\<lambda>t. tid t = tid newTopic) prev \<noteq> None \<longrightarrow>
      list_all2 (\<lambda>t t'. tid t' = tid t \<and>
          list_all2 keepsPageNo (questions t @ (if tid t = tid newTopic then questions newTopic else []))
            (questions t'))
        prev (addTopic prev newTopic saved)"
    using addTopic_existing [of prev newTopic] by blast
  have nl: "find (\<lambda>t. tid t = tid newTopic) prev = None \<longrightarrow>
      butlast (addTopic prev newTopic None) = prev \<and>
      list_all2 keepsPageNo (questions newTopic) (questions (last (addTopic prev newTopic None)))"
    using addTopic_new_local by blast
  have ns: "find (\<lambda>t. tid t = tid newTopic) prev = None \<and>
    postTopic newId existing (newTopic\<lparr>questions := preserveQuestionFields (questions newTopic)\<rparr>) =
      Some savedTopic \<longrightarrow>
      butlast (addTopic prev newTopic (Some savedTopic)) = prev \<and>
      list_all2 keepsPageNo
        ((case existing of None \<Rightarrow> [] | Some e \<Rightarrow> questions e) @ questions newTopic)
        (questions (last (addTopic prev newTopic (Some savedTopic))))"
    using addTopic_new_saved by blast
  have nr: "normalizeRow newId sourceName index row = Some q \<longrightarrow> pageNo q = None"
    using normalizeRow_pageNo by blast
  have im: "importRows uuid rows sourceName = ImportSuccessful topics n k \<longrightarrow>
      set (concat (map questions topics)) =
        set (processedQuestions (processRows uuid sourceName 0 rows
               \<lparr>processedQuestions = [], skippedCount = 0, idCount = 0\<rparr>)) \<and>
      (\<forall>t\<in>set topics. \<forall>q\<in>set (questions t). pageNo q = None)"
    using importRows_questions importRows_pageNo by blast
  from validateAndCleanQuestions_pageNo ocrQuestion_keeps questionsWithTopic_keeps
    preserveQuestionFields_keeps preserveQuestionFields_server_keeps postTopicQuestions_keeps
    e2e pt ex nl ns nr im
  show ?thesis by (intro conjI)
qed

theorem pageNo_kept_after_the_cleaning_step_witness:
  "map pageNo (validateAndCleanQuestions toUpperCase
     [\<lparr>qid = [], no = Some ''22.'', question = ''What is 2+2?'', options = [''3'', ''4''],
        correctAnswer = ''b'', explanation = None, topic = [], pageNo = None\<rparr>] ''22'') =
     [Some ''22''] \<and>
   map pageNo (preserveQuestionFields_server (preserveQuestionFields (questionsWithTopic ''Maths''
       [\<lparr>qid = ''q1'', no = Some ''22.'', question = ''What is 2+2?'', options = [''3'', ''4''],
          correctAnswer = ''B'', explanation = None, topic = [], pageNo = Some ''22''\<rparr>,
        \<lparr>qid = ''q2'', no = Some ''23.'', question = ''What is 3+3?'', options = [''6'', ''7''],
          correctAnswer = ''A'', explanation = None, topic = [], pageNo = Some []\<rparr>]))) =
     [Some ''22'', Some []] \<and>
   map (\<lambda>t. map pageNo (questions t))
     (addTopic
        [\<lparr>tid = ''t1'', name = ''Maths'', questions =
            [\<lparr>qid = ''q0'', no = Some ''7.'', question = ''What is 1+1?'', options = [''2'', ''3''],
               correctAnswer = ''A'', explanation = None, topic = ''Maths'', pageNo = Some ''7''\<rparr>]\<rparr>]
        \<lparr>tid = ''t1'', name = ''Maths'', questions =
            [\<lparr>qid = ''q1'', no = Some ''22.'', question = ''What is 2+2?'', options = [''3'', ''4''],
               correctAnswer = ''B'', explanation = None, topic = ''Maths'', pageNo = Some ''22''\<rparr>]\<rparr>
        None) =
     [[Some ''7'', Some ''22'']] \<and>
   map pageNo (questions (last (addTopic []
        \<lparr>tid = ''t1'', name = ''Maths'', questions =
            [\<lparr>qid = ''q1'', no = Some ''22.'', question = ''What is 2+2?'', options = [''3'', ''4''],
               correctAnswer = ''B'', explanation = None, topic = ''Maths'', pageNo = Some ''22''\<rparr>]\<rparr>
        None))) =
     [Some ''22''] \<and>
   map pageNo (questions (last (addTopic []
        \<lparr>tid = ''t1'', name = ''Maths'', questions =
            [\<lparr>qid = ''q1'', no = Some ''22.'', question = ''What is 2+2?'', options = [''3'', ''4''],
               correctAnswer = ''B'', explanation = None, topic = ''Maths'', pageNo = Some ''22''\<rparr>]\<rparr>
        (Some \<lparr>tid = ''db1'', name = ''Maths'', questions =
            [\<lparr>qid = ''q1'', no = Some ''22.'', question = ''What is 2+2?'', options = [''3'', ''4''],
               correctAnswer = ''B'', explanation = Some [], topic = ''Maths'',
               pageNo = Some ''22''\<rparr>]\<rparr>)))) =
     [Some ''22''] \<and>
   map_option (\<lambda>t. map pageNo (questions t)) (postTopic ''db1''
        (Some \<lparr>tid = ''t1'', name = ''Maths'', questions =
            [\<lparr>qid = ''q0'', no = Some ''7.'', question = ''What is 1+1?'', options = [''2'', ''3''],
               correctAnswer = ''A'', explanation = None, topic = ''Maths'', pageNo = Some ''7''\<rparr>]\<rparr>)
        \<lparr>tid = ''t1'', name = ''Maths'', questions =
            [\<lparr>qid = ''q1'', no = Some ''22.'', question = ''What is 2+2?'', options = [''3'', ''4''],
               correctAnswer = ''B'', explanation = None, topic = ''Maths'', pageNo = Some ''22''\<rparr>]\<rparr>) =
     Some [Some ''7'', Some ''22''] \<and>
   map_option pageNo (normalizeRow ''0'' ''a.csv'' 0
        [(''Question'', ''What is 2+2?''), (''Option A'', ''3''), (''Option B'', ''4'')]) = Some None \<and>
   set (processedQuestions (processRows showNat ''a.csv'' 0
          [[(''Question'', ''What is 2+2?''), (''Option A'', ''3''), (''Option B'', ''4'')]]
          \<lparr>processedQuestions = [], skippedCount = 0, idCount = 0\<rparr>)) =
     {\<lparr>qid = ''0'', no = Some ''1'', question = ''What is 2+2?'', options = [''3'', ''4''],
        correctAnswer = ''3'', explanation = None, topic = ''a'', pageNo = None\<rparr>}"
proof -
  let ?q0 = "\<lparr>qid = ''q0'', no = Some ''7.'', question = ''What is 1+1?'', options = [''2'', ''3''],
               correctAnswer = ''A'', explanation = None, topic = ''Maths'', pageNo = Some ''7''\<rparr>"
  let ?q1 = "\<lparr>qid = ''q1'', no = Some ''22.'', question = ''What is 2+2?'', options = [''3'', ''4''],
               correctAnswer = ''B'', explanation = None, topic = ''Maths'', pageNo = Some ''22''\<rparr>"
  let ?q1s = "\<lparr>qid = ''q1'', no = Some ''22.'', question = ''What is 2+2?'', options = [''3'', ''4''],
               correctAnswer = ''B'', explanation = Some [], topic = ''Maths'', pageNo = Some ''22''\<rparr>"
  let ?a = "\<lparr>qid = ''q1'', no = Some ''22.'', question = ''What is 2+2?'', options = [''3'', ''4''],
          correctAnswer = ''B'', explanation = None, topic = [], pageNo = Some ''22''\<rparr>"
  let ?b = "\<lparr>qid = ''q2'', no = Some ''23.'', question = ''What is 3+3?'', options = [''6'', ''7''],
          correctAnswer = ''A'', explanation = None, topic = [], pageNo = Some []\<rparr>"
  let ?l = "\<lparr>qid = [], no = Some ''22.'', question = ''What is 2+2?'', options = [''3'', ''4''],
        correctAnswer = ''b'', explanation = None, topic = [], pageNo = None\<rparr>"
  let ?T = "\<lparr>tid = ''t1'', name = ''Maths'', questions = [?q0]\<rparr>"
  let ?N = "\<lparr>tid = ''t1'', name = ''Maths'', questions = [?q1]\<rparr>"
  let ?S = "\<lparr>tid = ''db1'', name = ''Maths'', questions = [?q1s]\<rparr>"
  let ?rows = "[[(''Question'', ''What is 2+2?''), (''Option A'', ''3''), (''Option B'', ''4'')]]"
  let ?c = "\<lparr>qid = ''0'', no = Some ''1'', question = ''What is 2+2?'', options = [''3'', ''4''],
        correctAnswer = ''3'', explanation = None, topic = ''a'', pageNo = None\<rparr>"
  note A = pageNo_kept_after_the_cleaning_step [where qs = "[?l]" and batchPageNo = "''22''"
      and toUpperCaseText = toUpperCase, THEN conjunct1]
  from A obtain l' where "validateAndCleanQuestions toUpperCase [?l] ''22'' = [l']"
    and "pageNo l' = Some ''22''"
    by (auto simp add: list_all2_Cons1)
  then have c0: "map pageNo (validateAndCleanQuestions toUpperCase [?l] ''22'') = [Some ''22'']"
    by simp
  note P = pageNo_kept_after_the_cleaning_step [where qs = "[?a, ?b]" and topicName = "''Maths''",
      THEN conjunct2, THEN conjunct2, THEN conjunct2, THEN conjunct2, THEN conjunct2, THEN conjunct2,
      THEN conjunct1]
  from P have "map pageNo (postTopicQuestions None (preserveQuestionFields (questionsWithTopic ''Maths'' [?a, ?b]))) =
      map pageNo [?a, ?b]"
    by (rule keepsPageNo_set) simp
  then have c1: "map pageNo (preserveQuestionFields_server (preserveQuestionFields
        (questionsWithTopic ''Maths'' [?a, ?b]))) = [Some ''22'', Some []]"
    by (simp add: postTopicQuestions_def)
  have h2: "distinct (map tid [?T]) \<and> find (\<lambda>t. tid t = tid ?N) [?T] \<noteq> None"
    by simp
  note E = pageNo_kept_after_the_cleaning_step [where prev = "[?T]" and newTopic = ?N and saved = None,
      THEN conjunct2, THEN conjunct2, THEN conjunct2, THEN conjunct2, THEN conjunct2, THEN conjunct2,
      THEN conjunct2, THEN conjunct2, THEN conjunct1, THEN mp, OF h2]
  from E obtain t' where r: "addTopic [?T] ?N None = [t']"
    and k: "list_all2 keepsPageNo [?q0, ?q1] (questions t')"
    by (auto simp add: list_all2_Cons1)
  from k have "map pageNo (questions t') = map pageNo [?q0, ?q1]"
    by (rule keepsPageNo_set) simp
  with r have c2: "map (\<lambda>t. map pageNo (questions t)) (addTopic [?T] ?N None) = [[Some ''7'', Some ''22'']]"
    by simp
  have h3: "find (\<lambda>t. tid t = tid ?N) [] = None"
    by simp
  note F = pageNo_kept_after_the_cleaning_step [where prev = "[]" and newTopic = ?N,
      THEN conjunct2, THEN conjunct2, THEN conjunct2, THEN conjunct2, THEN conjunct2, THEN conjunct2,
      THEN conjunct2, THEN conjunct2, THEN conjunct2, THEN conjunct1, THEN mp, OF h3, THEN conjunct2]
  from F have "map pageNo (questions (last (addTopic [] ?N None))) = map pageNo (questions ?N)"
    by (rule keepsPageNo_set) simp
  then have c3: "map pageNo (questions (last (addTopic [] ?N None))) = [Some ''22'']"
    by simp
  have h4: "find (\<lambda>t. tid t = tid ?N) [] = None \<and>
      postTopic ''db1'' None (?N\<lparr>questions := preserveQuestionFields (questions ?N)\<rparr>) = Some ?S"
    by (simp add: postTopic_def postTopicQuestions_def preserveQuestionFields_def
        preserveQuestionFields_server_def orString_def)
  note G = pageNo_kept_after_the_cleaning_step [where prev = "[]" and newTopic = ?N and newId = "''db1''"
      and existing = None and savedTopic = ?S,
      THEN conjunct2, THEN conjunct2, THEN conjunct2, THEN conjunct2, THEN conjunct2, THEN conjunct2,
      THEN conjunct2, THEN conjunct2, THEN conjunct2, THEN conjunct2, THEN conjunct1, THEN mp, OF h4,
      THEN conjunct2]
  from G have "list_all2 keepsPageNo (questions ?N) (questions (last (addTopic [] ?N (Some ?S))))"
    by simp
  then have "map pageNo (questions (last (addTopic [] ?N (Some ?S)))) = map pageNo (questions ?N)"
    by (rule keepsPageNo_set) simp
  then have c4: "map pageNo (questions (last (addTopic [] ?N (Some ?S)))) = [Some ''22'']"
    by simp
  have h5: "importRows showNat ?rows ''a.csv'' =
      ImportSuccessful [\<lparr>tid = ''1'', name = ''a'', questions = [?c]\<rparr>] 1 0"
    by code_simp
  note H = pageNo_kept_after_the_cleaning_step [where uuid = showNat and rows = ?rows
      and sourceName = "''a.csv''",
      THEN conjunct2, THEN conjunct2, THEN conjunct2, THEN conjunct2, THEN conjunct2, THEN conjunct2,
      THEN conjunct2, THEN conjunct2, THEN conjunct2, THEN conjunct2, THEN conjunct2, THEN conjunct2,
      THEN mp, OF h5, THEN conjunct1]
  from H have c5: "set (processedQuestions (processRows showNat ''a.csv'' 0 ?rows
          \<lparr>processedQuestions = [], skippedCount = 0, idCount = 0\<rparr>)) = {?c}"
    by simp
  have h6: "postTopic ''db1'' (Some ?T) ?N =
      Some \<lparr>tid = ''t1'', name = ''Maths'', questions = [?q0, ?q1s]\<rparr>"
    by (simp add: postTopic_def postTopicQuestions_def preserveQuestionFields_server_def orString_def)
  note I = pageNo_kept_after_the_cleaning_step [where newId = "''db1''" and existing = "Some ?T"
      and body = ?N and savedTopic = "\<lparr>tid = ''t1'', name = ''Maths'', questions = [?q0, ?q1s]\<rparr>",
      THEN conjunct2, THEN conjunct2, THEN conjunct2, THEN conjunct2, THEN conjunct2, THEN conjunct2,
      THEN conjunct2, THEN conjunct1, THEN mp, OF h6]
  from I have "list_all2 keepsPageNo [?q0, ?q1] [?q0, ?q1s]"
    by simp
  then have "map pageNo [?q0, ?q1s] = map pageNo [?q0, ?q1]"
    by (rule keepsPageNo_set) simp
  with h6 have c6: "map_option (\<lambda>t. map pageNo (questions t)) (postTopic ''db1'' (Some ?T) ?N) =
      Some [Some ''7'', Some ''22'']"
    by simp
  have h7: "normalizeRow ''0'' ''a.csv'' 0
      [(''Question'', ''What is 2+2?''), (''Option A'', ''3''), (''Option B'', ''4'')] = Some ?c"
    by code_simp
  note J = pageNo_kept_after_the_cleaning_step [where newId = "''0''" and sourceName = "''a.csv''"
      and index = 0 and row = "[(''Question'', ''What is 2+2?''), (''Option A'', ''3''), (''Option B'', ''4'')]"
      and q = ?c,
      THEN conjunct2, THEN conjunct2, THEN conjunct2, THEN conjunct2, THEN conjunct2, THEN conjunct2,
      THEN conjunct2, THEN conjunct2, THEN conjunct2, THEN conjunct2, THEN conjunct2, THEN conjunct1,
      THEN mp, OF h7]
  from J h7 have c7: "map_option pageNo (normalizeRow ''0'' ''a.csv'' 0
      [(''Question'', ''What is 2+2?''), (''Option A'', ''3''), (''Option B'', ''4'')]) = Some None"
    by (simp only: option.map)
  from c0 c1 c2 c3 c4 c6 c7 c5 show ?thesis by (intro conjI)
qed

end
